theory Spec2Isabelle
  imports Main "HOL-Library.AList"
begin

section \<open>Data model of the deployment workflow\<close>

text \<open>
  The enumerations and the two pydantic models of \<^verbatim>\<open>src.models.orchestrator\<close>, as
  \<^verbatim>\<open>redis_store.py\<close> uses them. A step result (\<^verbatim>\<open>dict | None\<close>) is an association
  list of strings; timestamps are ISO strings.
\<close>

datatype StepStatus = PENDING | IN_PROGRESS | COMPLETED | FAILED

datatype DeploymentStatus = DEPLOY_IN_PROGRESS | DEPLOY_COMPLETED | DEPLOY_FAILED

type_synonym payload = "(string \<times> string) list"

record StepState =
  step_num :: int
  name :: string
  step_status :: StepStatus
  started_at :: "string option"
  completed_at :: "string option"
  result :: "payload option"
  error :: "string option"

text \<open>
  The field \<^verbatim>\<open>steps\<close> is a Python dict keyed by step number: an association list in
  insertion order, whose keys are kept distinct by \<^const>\<open>AList.update\<close> (assignment to an
  existing key replaces the value in place, a new key is appended).
\<close>

record DeploymentState =
  site_id :: string
  org_id :: string
  site_name :: string
  status :: DeploymentStatus
  steps :: "(int \<times> StepState) list"
  current_step :: "int option"
  total_steps :: int
  created_at :: string
  updated_at :: string

text \<open>
  Modelled from the spec: the field defaults of \<^verbatim>\<open>StepState\<close> (module
  \<^verbatim>\<open>src.models.orchestrator\<close>): a step built from a number and a name alone is
  \<^verbatim>\<open>PENDING\<close> and carries no timestamp, result or error.
\<close>

definition new_StepState :: "int \<Rightarrow> string \<Rightarrow> StepState" where
  "new_StepState n nm =
     \<lparr>step_num = n, name = nm, step_status = PENDING, started_at = None,
      completed_at = None, result = None, error = None\<rparr>"

text \<open>
  Modelled from the spec: the field defaults of \<^verbatim>\<open>DeploymentState\<close>: an empty step
  mapping and no current step. The constant \<^verbatim>\<open>total_steps\<close> of the workflow type and the
  creation timestamp are parameters.
\<close>

definition new_DeploymentState ::
  "int \<Rightarrow> string \<Rightarrow> string \<Rightarrow> string \<Rightarrow> string \<Rightarrow> DeploymentStatus \<Rightarrow> DeploymentState" where
  "new_DeploymentState tot now sid oid snm st =
     \<lparr>site_id = sid, org_id = oid, site_name = snm, status = st, steps = [],
      current_step = None, total_steps = tot, created_at = now, updated_at = now\<rparr>"

section \<open>The key-value store\<close>

text \<open>
  Modelled from the spec: the serialisation \<^verbatim>\<open>model_dump_json\<close> /
  \<^verbatim>\<open>model_validate_json\<close> of the aggregate, which parses back without loss.
\<close>

datatype json = Json DeploymentState

definition model_dump_json :: "DeploymentState \<Rightarrow> json" where
  "model_dump_json d = Json d"

fun model_validate_json :: "json \<Rightarrow> DeploymentState" where
  "model_validate_json (Json d) = d"

text \<open>
  Modelled from the spec: the \<^verbatim>\<open>RedisClient\<close> of module \<^verbatim>\<open>src.redis\<close>, a keyed store
  with \<^verbatim>\<open>get\<close>, \<^verbatim>\<open>set\<close> and \<^verbatim>\<open>keys\<close>, the enumeration of the keys that match a
  pattern in which \<^verbatim>\<open>*\<close> stands for any run of characters.
\<close>

type_synonym RedisClient = "(string \<times> json) list"

definition redis_get :: "RedisClient \<Rightarrow> string \<Rightarrow> json option" where
  "redis_get c k = map_of c k"

definition redis_set :: "RedisClient \<Rightarrow> string \<Rightarrow> json \<Rightarrow> RedisClient" where
  "redis_set c k v = AList.update k v c"

fun glob_match :: "string \<Rightarrow> string \<Rightarrow> bool" where
  "glob_match [] [] = True"
| "glob_match [] (c # cs) = False"
| "glob_match (p # ps) [] = (p = CHR ''*'' \<and> glob_match ps [])"
| "glob_match (p # ps) (c # cs) =
     (if p = CHR ''*'' then glob_match ps (c # cs) \<or> glob_match (p # ps) cs
      else p = c \<and> glob_match ps cs)"

definition redis_keys :: "RedisClient \<Rightarrow> string \<Rightarrow> string list" where
  "redis_keys c pat = filter (glob_match pat) (map fst c)"

fun starts_with :: "string \<Rightarrow> string \<Rightarrow> bool" where
  "starts_with [] s = True"
| "starts_with (p # ps) [] = False"
| "starts_with (p # ps) (c # cs) = (p = c \<and> starts_with ps cs)"

section \<open>RedisStateStore\<close>

record RedisStateStore =
  client :: "RedisClient option"

definition key :: "string \<Rightarrow> string" where
  "key sid = ''deployment:'' @ sid"

text \<open>The three lines \<^verbatim>\<open>if self.client: self.client.set(self._key(site_id), ...)\<close>.\<close>

definition persist :: "RedisStateStore \<Rightarrow> string \<Rightarrow> DeploymentState \<Rightarrow> RedisStateStore" where
  "persist st sid d =
     (case client st of
        None \<Rightarrow> st
      | Some c \<Rightarrow> st\<lparr>client := Some (redis_set c (key sid) (model_dump_json d))\<rparr>)"

definition create_deployment ::
  "int \<Rightarrow> string \<Rightarrow> RedisStateStore \<Rightarrow> string \<Rightarrow> string \<Rightarrow> string
     \<Rightarrow> DeploymentState \<times> RedisStateStore" where
  "create_deployment tot now st sid oid snm =
     (let state = new_DeploymentState tot now sid oid snm DEPLOY_IN_PROGRESS
      in (state, persist st sid state))"

definition get_deployment :: "RedisStateStore \<Rightarrow> string \<Rightarrow> DeploymentState option" where
  "get_deployment st sid =
     (case client st of
        None \<Rightarrow> None
      | Some c \<Rightarrow>
          (case redis_get c (key sid) of
             Some data \<Rightarrow> Some (model_validate_json data)
           | None \<Rightarrow> None))"

text \<open>
  Every mutating operation reads the aggregate, changes its local copy and writes it back.
  The change of the local copy is a function of its own; \<^verbatim>\<open>datetime.utcnow()\<close> is read
  twice per operation and both readings are arguments.
\<close>

definition start_step_local ::
  "DeploymentState \<Rightarrow> int \<Rightarrow> string \<Rightarrow> string \<Rightarrow> string \<Rightarrow> StepState \<times> DeploymentState" where
  "start_step_local state n nm t1 t2 =
     (let step = \<lparr>step_num = n, name = nm, step_status = IN_PROGRESS, started_at = Some t1,
                  completed_at = None, result = None, error = None\<rparr>
      in (step, state\<lparr>steps := AList.update n step (steps state),
                      current_step := Some n,
                      status := DEPLOY_IN_PROGRESS,
                      updated_at := t2\<rparr>))"

definition start_step ::
  "RedisStateStore \<Rightarrow> string \<Rightarrow> int \<Rightarrow> string \<Rightarrow> string \<Rightarrow> string
     \<Rightarrow> StepState \<times> RedisStateStore" where
  "start_step st sid n nm t1 t2 =
     (case get_deployment st sid of
        None \<Rightarrow> (new_StepState n nm, st)
      | Some state \<Rightarrow>
          (let (step, state') = start_step_local state n nm t1 t2
           in (step, persist st sid state')))"

definition completed_count :: "DeploymentState \<Rightarrow> int" where
  "completed_count state =
     int (length (filter (\<lambda>s. step_status s = COMPLETED) (map snd (steps state))))"

definition complete_step_local ::
  "DeploymentState \<Rightarrow> int \<Rightarrow> StepState \<Rightarrow> payload option \<Rightarrow> string \<Rightarrow> string
     \<Rightarrow> StepState \<times> DeploymentState" where
  "complete_step_local state n step0 res t1 t2 =
     (let step = step0\<lparr>step_status := COMPLETED, completed_at := Some t1, result := res\<rparr>;
          state1 = state\<lparr>steps := AList.update n step (steps state), updated_at := t2\<rparr>;
          state2 = (if completed_count state1 \<ge> total_steps state1
                    then state1\<lparr>status := DEPLOY_COMPLETED\<rparr> else state1)
      in (step, state2))"

text \<open>
  \<^verbatim>\<open>complete_step\<close> after its read: \<open>r\<close> is what \<^verbatim>\<open>get_deployment\<close> returned, \<open>st\<close> the
  store at the time of the write.
\<close>

definition complete_step_from ::
  "DeploymentState option \<Rightarrow> RedisStateStore \<Rightarrow> string \<Rightarrow> int \<Rightarrow> payload option \<Rightarrow> string \<Rightarrow> string
     \<Rightarrow> StepState \<times> RedisStateStore" where
  "complete_step_from r st sid n res t1 t2 =
     (case r of
        None \<Rightarrow> ((new_StepState n ''unknown'')\<lparr>step_status := COMPLETED\<rparr>, st)
      | Some state \<Rightarrow>
          (case map_of (steps state) n of
             None \<Rightarrow> ((new_StepState n ''unknown'')\<lparr>step_status := COMPLETED\<rparr>, st)
           | Some step0 \<Rightarrow>
               (let (step, state') = complete_step_local state n step0 res t1 t2
                in (step, persist st sid state'))))"

definition complete_step ::
  "RedisStateStore \<Rightarrow> string \<Rightarrow> int \<Rightarrow> payload option \<Rightarrow> string \<Rightarrow> string
     \<Rightarrow> StepState \<times> RedisStateStore" where
  "complete_step st sid n res t1 t2 =
     complete_step_from (get_deployment st sid) st sid n res t1 t2"

definition fail_step_local ::
  "DeploymentState \<Rightarrow> int \<Rightarrow> StepState \<Rightarrow> string \<Rightarrow> string \<Rightarrow> string
     \<Rightarrow> StepState \<times> DeploymentState" where
  "fail_step_local state n step0 err t1 t2 =
     (let step = step0\<lparr>step_status := FAILED, error := Some err, completed_at := Some t1\<rparr>
      in (step, state\<lparr>steps := AList.update n step (steps state),
                      status := DEPLOY_FAILED,
                      updated_at := t2\<rparr>))"

definition fail_step ::
  "RedisStateStore \<Rightarrow> string \<Rightarrow> int \<Rightarrow> string \<Rightarrow> string \<Rightarrow> string
     \<Rightarrow> StepState \<times> RedisStateStore" where
  "fail_step st sid n err t1 t2 =
     (case get_deployment st sid of
        None \<Rightarrow> ((new_StepState n ''unknown'')\<lparr>step_status := FAILED, error := Some err\<rparr>, st)
      | Some state \<Rightarrow>
          (case map_of (steps state) n of
             None \<Rightarrow>
               ((new_StepState n ''unknown'')\<lparr>step_status := FAILED, error := Some err\<rparr>, st)
           | Some step0 \<Rightarrow>
               (let (step, state') = fail_step_local state n step0 err t1 t2
                in (step, persist st sid state'))))"

definition is_step_completed :: "RedisStateStore \<Rightarrow> string \<Rightarrow> int \<Rightarrow> bool" where
  "is_step_completed st sid n =
     (case get_deployment st sid of
        None \<Rightarrow> False
      | Some state \<Rightarrow>
          (case map_of (steps state) n of
             Some s \<Rightarrow> step_status s = COMPLETED
           | None \<Rightarrow> False))"

text \<open>The step entity stored under number \<open>n\<close> in the persisted aggregate of a site.\<close>

definition get_step :: "RedisStateStore \<Rightarrow> string \<Rightarrow> int \<Rightarrow> StepState option" where
  "get_step st sid n =
     (case get_deployment st sid of None \<Rightarrow> None | Some d \<Rightarrow> map_of (steps d) n)"

text \<open>
  Python's \<^verbatim>\<open>str.replace(old, new)\<close> for a non-empty \<^verbatim>\<open>old\<close>: every occurrence, found
  from left to right without overlap, is replaced.
\<close>

function str_replace :: "string \<Rightarrow> string \<Rightarrow> string \<Rightarrow> string" where
  "str_replace old new s =
     (if old = [] \<or> s = [] then s
      else if starts_with old s then new @ str_replace old new (drop (length old) s)
      else hd s # str_replace old new (tl s))"
  by pat_completeness auto
termination
  by (relation "measure (\<lambda>(old, new, s). length s)") auto

declare str_replace.simps [simp del]

definition list_deployments :: "RedisStateStore \<Rightarrow> string list" where
  "list_deployments st =
     (case client st of
        None \<Rightarrow> []
      | Some c \<Rightarrow> map (\<lambda>k. str_replace ''deployment:'' '''' k) (redis_keys c ''deployment:*''))"

section \<open>Sequences of workflow operations\<close>

text \<open>
  A call of the workflow engine, with the readings of the clock it makes. A trace is run
  from left to right on a store; the constant \<^verbatim>\<open>total_steps\<close> of the model is the first
  argument.
\<close>

datatype op =
    Create string string string string
  | Start string int string string string
  | Complete string int "payload option" string string
  | Fail string int string string string

fun exec :: "int \<Rightarrow> op \<Rightarrow> RedisStateStore \<Rightarrow> RedisStateStore" where
  "exec tot (Create now sid oid snm) st = snd (create_deployment tot now st sid oid snm)"
| "exec tot (Start sid n nm t1 t2) st = snd (start_step st sid n nm t1 t2)"
| "exec tot (Complete sid n res t1 t2) st = snd (complete_step st sid n res t1 t2)"
| "exec tot (Fail sid n err t1 t2) st = snd (fail_step st sid n err t1 t2)"

definition run :: "int \<Rightarrow> op list \<Rightarrow> RedisStateStore \<Rightarrow> RedisStateStore" where
  "run tot ops st = fold (exec tot) ops st"

definition empty_store :: RedisStateStore where
  "empty_store = \<lparr>client = Some []\<rparr>"

fun is_create_of :: "string \<Rightarrow> op \<Rightarrow> bool" where
  "is_create_of sid (Create now s oid snm) = (s = sid)"
| "is_create_of sid _ = False"

fun is_start_of :: "string \<Rightarrow> int \<Rightarrow> op \<Rightarrow> bool" where
  "is_start_of sid n (Start s k nm t1 t2) = (s = sid \<and> k = n)"
| "is_start_of sid n _ = False"

fun is_complete_of :: "string \<Rightarrow> int \<Rightarrow> op \<Rightarrow> bool" where
  "is_complete_of sid n (Complete s k res t1 t2) = (s = sid \<and> k = n)"
| "is_complete_of sid n _ = False"

fun is_fail_of :: "string \<Rightarrow> int \<Rightarrow> op \<Rightarrow> bool" where
  "is_fail_of sid n (Fail s k err t1 t2) = (s = sid \<and> k = n)"
| "is_fail_of sid n _ = False"

text \<open>The operations that can change step \<open>n\<close> of site \<open>sid\<close>.\<close>

definition touches :: "string \<Rightarrow> int \<Rightarrow> op \<Rightarrow> bool" where
  "touches sid n x =
     (is_create_of sid x \<or> is_start_of sid n x \<or> is_complete_of sid n x \<or> is_fail_of sid n x)"

text \<open>
  The operation repeats the outcome a step already has: \<^verbatim>\<open>complete_step\<close> on a
  \<^verbatim>\<open>COMPLETED\<close> step, \<^verbatim>\<open>fail_step\<close> on a \<^verbatim>\<open>FAILED\<close> one.
\<close>

definition repeats :: "StepStatus \<Rightarrow> string \<Rightarrow> int \<Rightarrow> op \<Rightarrow> bool" where
  "repeats s sid n x =
     ((s = COMPLETED \<and> is_complete_of sid n x) \<or> (s = FAILED \<and> is_fail_of sid n x))"

text \<open>
  In the trace, step \<open>n\<close> of site \<open>sid\<close> was started, and the last operation on it is a
  \<^verbatim>\<open>complete_step\<close>.
\<close>

definition started_and_completed :: "string \<Rightarrow> int \<Rightarrow> op list \<Rightarrow> bool" where
  "started_and_completed sid n ops =
     (list_ex (is_start_of sid n) ops \<and>
      (case filter (touches sid n) ops of
         [] \<Rightarrow> False
       | x # xs \<Rightarrow> is_complete_of sid n (last (x # xs))))"

text \<open>Every \<^verbatim>\<open>start_step\<close> of the trace uses a step number in \<open>1..tot\<close>.\<close>

fun start_in_range :: "int \<Rightarrow> op \<Rightarrow> bool" where
  "start_in_range tot (Start s k nm t1 t2) = (1 \<le> k \<and> k \<le> tot)"
| "start_in_range tot _ = True"

section \<open>Two workers racing on one aggregate\<close>

text \<open>
  Two \<^verbatim>\<open>complete_step\<close> calls, A and B, on the same site: both read the aggregate before
  either writes, then A writes, then B writes. Read and write are the only accesses to the
  store that \<^verbatim>\<open>complete_step\<close> makes, and nothing in it orders them between callers.
\<close>

definition complete_step_race ::
  "RedisStateStore \<Rightarrow> string \<Rightarrow> int \<Rightarrow> payload option \<Rightarrow> string \<Rightarrow> string
     \<Rightarrow> int \<Rightarrow> payload option \<Rightarrow> string \<Rightarrow> string \<Rightarrow> RedisStateStore" where
  "complete_step_race st sid nA resA tA1 tA2 nB resB tB1 tB2 =
     (let rA = get_deployment st sid;
          rB = get_deployment st sid;
          stA = snd (complete_step_from rA st sid nA resA tA1 tA2)
      in snd (complete_step_from rB stA sid nB resB tB1 tB2))"

section \<open>NetworkCalculator\<close>

datatype error = ValueError string

record IPAllocation =
  zone_id :: int
  alloc_site_id :: int
  management_subnet :: string
  data_subnet :: string
  voice_subnet :: string
  guest_subnet :: string
  iot_subnet :: string

text \<open>The decimal text of an integer, as an f-string writes it.\<close>

definition digit :: "nat \<Rightarrow> char" where
  "digit d = ''0123456789'' ! d"

function str_nat :: "nat \<Rightarrow> string" where
  "str_nat n = (if n < 10 then [digit n] else str_nat (n div 10) @ [digit (n mod 10)])"
  by pat_completeness auto
termination
  by (relation "measure (\<lambda>n. n)") auto

declare str_nat.simps [simp del]

definition str_int :: "int \<Rightarrow> string" where
  "str_int i = (if i < 0 then CHR ''-'' # str_nat (nat (- i)) else str_nat (nat i))"

definition calculate_site_subnets :: "int \<Rightarrow> int \<Rightarrow> error + IPAllocation" where
  "calculate_site_subnets z s =
     (if \<not> (1 \<le> z \<and> z \<le> 255) then
        Inl (ValueError (''Zone ID must be 1-255, got '' @ str_int z))
      else if \<not> (1 \<le> s \<and> s \<le> 255) then
        Inl (ValueError (''Site ID must be 1-255, got '' @ str_int s))
      else
        Inr \<lparr>zone_id = z,
             alloc_site_id = s,
             management_subnet = ''10.'' @ str_int z @ ''.'' @ str_int s @ ''.0/24'',
             data_subnet = ''10.'' @ str_int (100 + z) @ ''.'' @ str_int s @ ''.0/24'',
             voice_subnet = ''10.'' @ str_int (150 + z) @ ''.'' @ str_int s @ ''.0/24'',
             guest_subnet = ''10.'' @ str_int (200 + z) @ ''.'' @ str_int s @ ''.0/24'',
             iot_subnet = ''10.'' @ str_int (220 + z) @ ''.'' @ str_int s @ ''.0/24''\<rparr>)"

section \<open>Invariants of the persisted data\<close>

text \<open>
  What holds of every step entity the workflow operations can store: timestamps and
  payloads appear only on a step that reached an outcome, and a failed step carries its
  error.
\<close>

definition step_inv :: "StepState \<Rightarrow> bool" where
  "step_inv s =
     ((completed_at s \<noteq> None \<longrightarrow> step_status s = COMPLETED \<or> step_status s = FAILED) \<and>
      (result s \<noteq> None \<longrightarrow> step_status s = COMPLETED \<or> step_status s = FAILED) \<and>
      (error s \<noteq> None \<longrightarrow> step_status s = COMPLETED \<or> step_status s = FAILED) \<and>
      (step_status s = FAILED \<longrightarrow> error s \<noteq> None))"

text \<open>
  What holds of every aggregate when the steps started are numbered within \<open>1..tot\<close>: the
  keys are distinct and in range, and the aggregate is \<^verbatim>\<open>COMPLETED\<close> exactly when \<open>tot\<close>
  steps are.
\<close>

definition agg_inv :: "int \<Rightarrow> DeploymentState \<Rightarrow> bool" where
  "agg_inv tot d =
     (total_steps d = tot \<and> distinct (map fst (steps d)) \<and>
      (\<forall>k\<in>set (map fst (steps d)). 1 \<le> k \<and> k \<le> tot) \<and>
      (status d = DEPLOY_COMPLETED \<longleftrightarrow> completed_count d = tot))"

section \<open>What each operation leaves in the store\<close>

lemma key_eq [simp]: "key a = key b \<longleftrightarrow> a = b"
  by (simp add: key_def)

lemma get_deployment_client: "get_deployment st sid = Some d \<Longrightarrow> client st \<noteq> None"
  by (auto simp: get_deployment_def split: option.splits)

lemma get_persist:
  "get_deployment (persist st sid d) sid' =
     (if client st = None then None
      else if sid' = sid then Some d else get_deployment st sid')"
  by (cases "client st")
     (simp_all add: get_deployment_def persist_def redis_get_def redis_set_def
        model_dump_json_def update_conv')

lemma get_create:
  "get_deployment (snd (create_deployment tot now st sid oid snm)) sid' =
     (if client st = None then None
      else if sid' = sid then Some (new_DeploymentState tot now sid oid snm DEPLOY_IN_PROGRESS)
      else get_deployment st sid')"
  by (simp add: create_deployment_def Let_def get_persist)

lemma get_start:
  "get_deployment (snd (start_step st sid n nm t1 t2)) sid' =
     (if sid' = sid
      then map_option (\<lambda>d. snd (start_step_local d n nm t1 t2)) (get_deployment st sid)
      else get_deployment st sid')"
  by (cases "get_deployment st sid")
     (auto simp: start_step_def get_persist split: prod.splits dest: get_deployment_client)

lemma get_complete:
  "get_deployment (snd (complete_step st sid n res t1 t2)) sid' =
     (if sid' = sid
      then map_option
             (\<lambda>d. case map_of (steps d) n of
                     None \<Rightarrow> d
                   | Some s0 \<Rightarrow> snd (complete_step_local d n s0 res t1 t2))
             (get_deployment st sid)
      else get_deployment st sid')"
  by (cases "get_deployment st sid")
     (auto simp: complete_step_def complete_step_from_def get_persist
        split: prod.splits option.splits dest: get_deployment_client)

lemma get_fail:
  "get_deployment (snd (fail_step st sid n err t1 t2)) sid' =
     (if sid' = sid
      then map_option
             (\<lambda>d. case map_of (steps d) n of
                     None \<Rightarrow> d
                   | Some s0 \<Rightarrow> snd (fail_step_local d n s0 err t1 t2))
             (get_deployment st sid)
      else get_deployment st sid')"
  by (cases "get_deployment st sid")
     (auto simp: fail_step_def get_persist
        split: prod.splits option.splits dest: get_deployment_client)

lemma start_local_fields [simp]:
  "steps (snd (start_step_local d n nm t1 t2)) =
     AList.update n \<lparr>step_num = n, name = nm, step_status = IN_PROGRESS, started_at = Some t1,
                      completed_at = None, result = None, error = None\<rparr> (steps d)"
  "status (snd (start_step_local d n nm t1 t2)) = DEPLOY_IN_PROGRESS"
  "total_steps (snd (start_step_local d n nm t1 t2)) = total_steps d"
  by (simp_all add: start_step_local_def Let_def)

lemma completed_count_steps [simp]:
  "completed_count (d\<lparr>steps := xs, updated_at := t\<rparr>) =
     int (length (filter (\<lambda>s. step_status s = COMPLETED) (map snd xs)))"
  by (simp add: completed_count_def)

lemma complete_local_fields [simp]:
  "steps (snd (complete_step_local d n s0 res t1 t2)) =
     AList.update n (s0\<lparr>step_status := COMPLETED, completed_at := Some t1, result := res\<rparr>) (steps d)"
  "total_steps (snd (complete_step_local d n s0 res t1 t2)) = total_steps d"
  by (simp_all add: complete_step_local_def Let_def)

lemma complete_local_status:
  "status (snd (complete_step_local d n s0 res t1 t2)) =
     (if completed_count (snd (complete_step_local d n s0 res t1 t2)) \<ge> total_steps d
      then DEPLOY_COMPLETED else status d)"
  by (simp add: complete_step_local_def Let_def completed_count_def)

lemma fail_local_fields [simp]:
  "steps (snd (fail_step_local d n s0 err t1 t2)) =
     AList.update n (s0\<lparr>step_status := FAILED, error := Some err, completed_at := Some t1\<rparr>) (steps d)"
  "status (snd (fail_step_local d n s0 err t1 t2)) = DEPLOY_FAILED"
  "total_steps (snd (fail_step_local d n s0 err t1 t2)) = total_steps d"
  by (simp_all add: fail_step_local_def Let_def)


lemma run_Nil [simp]: "run tot [] st = st"
  by (simp add: run_def)

lemma run_Cons [simp]: "run tot (x # xs) st = run tot xs (exec tot x st)"
  by (simp add: run_def)

lemma run_snoc [simp]: "run tot (xs @ [x]) st = exec tot x (run tot xs st)"
  by (simp add: run_def)

lemma exec_invariant:
  assumes q: "Q x"
    and init: "\<And>sid d. get_deployment st sid = Some d \<Longrightarrow> P sid d"
    and new: "\<And>now sid oid snm. Q (Create now sid oid snm) \<Longrightarrow>
                P sid (new_DeploymentState tot now sid oid snm DEPLOY_IN_PROGRESS)"
    and start: "\<And>sid d n nm t1 t2. Q (Start sid n nm t1 t2) \<Longrightarrow> P sid d \<Longrightarrow>
                P sid (snd (start_step_local d n nm t1 t2))"
    and complete: "\<And>sid d n s0 res t1 t2. Q (Complete sid n res t1 t2) \<Longrightarrow> P sid d \<Longrightarrow>
                map_of (steps d) n = Some s0 \<Longrightarrow>
                P sid (snd (complete_step_local d n s0 res t1 t2))"
    and fail: "\<And>sid d n s0 err t1 t2. Q (Fail sid n err t1 t2) \<Longrightarrow> P sid d \<Longrightarrow>
                map_of (steps d) n = Some s0 \<Longrightarrow>
                P sid (snd (fail_step_local d n s0 err t1 t2))"
    and get: "get_deployment (exec tot x st) sid = Some d"
  shows "P sid d"
proof (cases x)
  case (Create now s oid snm)
  with get q show ?thesis
    by (auto simp: get_create split: if_splits intro: init new)
next
  case (Start s n nm t1 t2)
  with get q show ?thesis
    by (auto simp: get_start split: if_splits intro: init start)
next
  case (Complete s n res t1 t2)
  with get q show ?thesis
    by (auto simp: get_complete split: if_splits option.splits intro: init complete)
next
  case (Fail s n err t1 t2)
  with get q show ?thesis
    by (auto simp: get_fail split: if_splits option.splits intro: init fail)
qed

lemma run_invariant:
  assumes ops: "\<forall>x\<in>set ops. Q x"
    and init: "\<And>sid d. get_deployment st sid = Some d \<Longrightarrow> P sid d"
    and new: "\<And>now sid oid snm. Q (Create now sid oid snm) \<Longrightarrow>
                P sid (new_DeploymentState tot now sid oid snm DEPLOY_IN_PROGRESS)"
    and start: "\<And>sid d n nm t1 t2. Q (Start sid n nm t1 t2) \<Longrightarrow> P sid d \<Longrightarrow>
                P sid (snd (start_step_local d n nm t1 t2))"
    and complete: "\<And>sid d n s0 res t1 t2. Q (Complete sid n res t1 t2) \<Longrightarrow> P sid d \<Longrightarrow>
                map_of (steps d) n = Some s0 \<Longrightarrow>
                P sid (snd (complete_step_local d n s0 res t1 t2))"
    and fail: "\<And>sid d n s0 err t1 t2. Q (Fail sid n err t1 t2) \<Longrightarrow> P sid d \<Longrightarrow>
                map_of (steps d) n = Some s0 \<Longrightarrow>
                P sid (snd (fail_step_local d n s0 err t1 t2))"
    and get: "get_deployment (run tot ops st) sid = Some d"
  shows "P sid d"
  using ops init get
proof (induction ops arbitrary: st sid d)
  case Nil
  then show ?case by simp
next
  case (Cons x xs)
  have qx: "Q x" using Cons.prems(1) by simp
  have step: "P sid' d'" if "get_deployment (exec tot x st) sid' = Some d'" for sid' d'
    using qx Cons.prems(2) new start complete fail that
    by (rule exec_invariant [where Q = Q and P = P])
  show ?case
    by (rule Cons.IH [of "exec tot x st"])
       (use Cons.prems in \<open>simp_all add: step\<close>)
qed

lemma get_empty [simp]: "get_deployment empty_store sid = None"
  by (simp add: get_deployment_def empty_store_def redis_get_def)

lemma get_deployment_no_client: "client st = None \<Longrightarrow> get_deployment st sid = None"
  by (simp add: get_deployment_def)

lemma get_step_untouched:
  "\<not> touches sid n x \<Longrightarrow> get_step (exec tot x st) sid n = get_step st sid n"
proof (cases x)
  case (Create now s oid snm)
  assume "\<not> touches sid n x"
  with Create show ?thesis
    by (simp add: get_step_def get_create touches_def get_deployment_no_client)
next
  case (Start s k nm t1 t2)
  assume "\<not> touches sid n x"
  with Start show ?thesis
    by (auto simp: get_step_def get_start touches_def update_conv' split: option.splits)
next
  case (Complete s k res t1 t2)
  assume "\<not> touches sid n x"
  with Complete show ?thesis
    by (auto simp: get_step_def get_complete touches_def update_conv' split: option.splits)
next
  case (Fail s k err t1 t2)
  assume "\<not> touches sid n x"
  with Fail show ?thesis
    by (auto simp: get_step_def get_fail touches_def update_conv' split: option.splits)
qed

lemma get_step_complete:
  "get_step st sid n = Some s \<Longrightarrow>
   get_step (snd (complete_step st sid n res t1 t2)) sid n =
     Some (s\<lparr>step_status := COMPLETED, completed_at := Some t1, result := res\<rparr>)"
  by (auto simp: get_step_def get_complete update_conv' split: option.splits)

lemma get_step_fail:
  "get_step st sid n = Some s \<Longrightarrow>
   get_step (snd (fail_step st sid n err t1 t2)) sid n =
     Some (s\<lparr>step_status := FAILED, error := Some err, completed_at := Some t1\<rparr>)"
  by (auto simp: get_step_def get_fail update_conv' split: option.splits)

lemma get_step_start:
  "get_deployment st sid = Some d \<Longrightarrow>
   get_step (snd (start_step st sid n nm t1 t2)) sid n =
     Some \<lparr>step_num = n, name = nm, step_status = IN_PROGRESS, started_at = Some t1,
           completed_at = None, result = None, error = None\<rparr>"
  by (auto simp: get_step_def get_start update_conv' split: option.splits)

lemma exec_repeats:
  assumes "get_step st sid n = Some s" and "repeats (step_status s) sid n x"
  shows "\<exists>s'. get_step (exec tot x st) sid n = Some s' \<and> step_status s' = step_status s"
proof (cases x)
  case (Complete s' k res t1 t2)
  with assms show ?thesis by (auto simp: repeats_def get_step_complete)
next
  case (Fail s' k err t1 t2)
  with assms show ?thesis by (auto simp: repeats_def get_step_fail)
qed (use assms in \<open>auto simp: repeats_def\<close>)

lemma is_step_completed_get_step:
  "is_step_completed st sid n \<longleftrightarrow> (\<exists>s. get_step st sid n = Some s \<and> step_status s = COMPLETED)"
  by (auto simp: is_step_completed_def get_step_def split: option.splits)

lemma never_completed_before:
  assumes "\<forall>x\<in>set ops. \<not> is_complete_of sid n x"
  shows "\<not> is_step_completed (run tot ops empty_store) sid n"
proof -
  let ?P = "\<lambda>s (d::DeploymentState). s = sid \<longrightarrow> (\<forall>z. map_of (steps d) n = Some z \<longrightarrow> step_status z \<noteq> COMPLETED)"
  have "?P sid d" if "get_deployment (run tot ops empty_store) sid = Some d" for d
    using assms _ _ _ _ _ that
  proof (rule run_invariant [where P = ?P and Q = "\<lambda>x. \<not> is_complete_of sid n x"])
    fix sid' d assume "get_deployment empty_store sid' = Some d"
    then show "?P sid' d" by simp
  next
    fix now sid' oid snm
    show "?P sid' (new_DeploymentState tot now sid' oid snm DEPLOY_IN_PROGRESS)"
      by (simp add: new_DeploymentState_def)
  next
    fix sid' d k nm t1 t2 assume "?P sid' d"
    then show "?P sid' (snd (start_step_local d k nm t1 t2))"
      by (auto simp: update_conv' split: if_splits)
  next
    fix sid' d k s0 res t1 t2
    assume "\<not> is_complete_of sid n (Complete sid' k res t1 t2)" "?P sid' d"
    then show "?P sid' (snd (complete_step_local d k s0 res t1 t2))"
      by (auto simp: update_conv' split: if_splits)
  next
    fix sid' d k s0 err t1 t2 assume "?P sid' d"
    then show "?P sid' (snd (fail_step_local d k s0 err t1 t2))"
      by (auto simp: update_conv' split: if_splits)
  qed
  then show ?thesis
    by (auto simp: is_step_completed_def split: option.splits)
qed

section \<open>Invariants along a trace\<close>

lemma reachable_steps_inv:
  assumes "get_deployment (run tot ops empty_store) sid = Some d"
    and "map_of (steps d) n = Some s"
  shows "step_inv s"
proof -
  let ?P = "\<lambda>(sid::string) (d::DeploymentState). \<forall>k z. map_of (steps d) k = Some z \<longrightarrow> step_inv z"
  have "?P sid d"
    using _ _ _ _ _ _ assms(1)
  proof (rule run_invariant [where P = ?P and Q = "\<lambda>x. True"])
    show "\<forall>x\<in>set ops. True" by simp
  next
    fix sid' d assume "get_deployment empty_store sid' = Some d"
    then show "?P sid' d" by simp
  next
    fix now sid' oid snm
    show "?P sid' (new_DeploymentState tot now sid' oid snm DEPLOY_IN_PROGRESS)"
      by (simp add: new_DeploymentState_def)
  next
    fix sid' d k nm t1 t2 assume "?P sid' d"
    then show "?P sid' (snd (start_step_local d k nm t1 t2))"
      by (auto simp: update_conv' step_inv_def split: if_splits)
  next
    fix sid' d k s0 res t1 t2
    assume "?P sid' d" "map_of (steps d) k = Some s0"
    then show "?P sid' (snd (complete_step_local d k s0 res t1 t2))"
      by (auto simp: update_conv' step_inv_def split: if_splits)
  next
    fix sid' d k s0 err t1 t2 assume "?P sid' d" "map_of (steps d) k = Some s0"
    then show "?P sid' (snd (fail_step_local d k s0 err t1 t2))"
      by (auto simp: update_conv' step_inv_def split: if_splits)
  qed
  with assms(2) show ?thesis by blast
qed

lemma filter_key_update:
  "distinct (map fst xs) \<Longrightarrow>
   length (filter (\<lambda>p. fst p = n) (AList.update n v xs)) = 1"
  by (induction xs) (auto simp: rev_image_eqI filter_empty_conv)

lemma get_start_same:
  "get_deployment st sid = Some d \<Longrightarrow>
   get_deployment (snd (start_step st sid n nm t1 t2)) sid
     = Some (snd (start_step_local d n nm t1 t2))"
  by (simp add: get_start)

lemma client_persist: "client (persist st sid d) = None \<longleftrightarrow> client st = None"
  by (simp add: persist_def split: option.splits)

lemma get_complete_from:
  assumes "map_of (steps d) n = Some s0" and "client st \<noteq> None"
  shows "get_deployment (snd (complete_step_from (Some d) st sid n res t1 t2)) sid
           = Some (snd (complete_step_local d n s0 res t1 t2))"
  using assms by (auto simp: complete_step_from_def get_persist split: prod.splits)

lemma client_complete_from:
  "client (snd (complete_step_from r st sid n res t1 t2)) = None \<longleftrightarrow> client st = None"
  by (auto simp: complete_step_from_def client_persist split: option.splits prod.splits)

lemma count_le_length: "length (filter P (map snd xs)) \<le> length xs"
  using length_filter_le [of P "map snd xs"] by simp

lemma count_less_length:
  "(k, s) \<in> set xs \<Longrightarrow> \<not> P s \<Longrightarrow> length (filter P (map snd xs)) < length xs"
  using length_filter_less [of s "map snd xs" P] by force

lemma keys_bound:
  assumes "distinct (map fst xs)" and "\<forall>k\<in>set (map fst xs). 1 \<le> k \<and> k \<le> tot" and "0 < tot"
  shows "int (length xs) \<le> tot"
proof -
  have "set (map fst xs) \<subseteq> {1..tot}" using assms(2) by auto
  then have "card (set (map fst xs)) \<le> card {1..tot}" by (intro card_mono) simp_all
  moreover have "card (set (map fst xs)) = length xs"
    using assms(1) distinct_card [of "map fst xs"] by simp
  ultimately show ?thesis using assms(3) by simp
qed

lemma count_update_mono:
  "P v \<Longrightarrow> length (filter P (map snd xs)) \<le> length (filter P (map snd (AList.update k v xs)))"
  by (induction xs) auto

lemma agg_inv_new:
  "0 < tot \<Longrightarrow> agg_inv tot (new_DeploymentState tot now sid oid snm DEPLOY_IN_PROGRESS)"
  by (simp add: agg_inv_def new_DeploymentState_def completed_count_def)

lemma agg_inv_start:
  assumes "0 < tot" and "1 \<le> n \<and> n \<le> tot" and "agg_inv tot d"
  shows "agg_inv tot (snd (start_step_local d n nm t1 t2))"
proof -
  let ?step = "\<lparr>step_num = n, name = nm, step_status = IN_PROGRESS, started_at = Some t1,
                 completed_at = None, result = None, error = None\<rparr>"
  let ?xs = "AList.update n ?step (steps d)"
  have dist: "distinct (map fst ?xs)" using assms(3) by (simp add: agg_inv_def distinct_update)
  have keys: "\<forall>k\<in>set (map fst ?xs). 1 \<le> k \<and> k \<le> tot"
    using assms(2,3) by (auto simp: agg_inv_def update_keys)
  have "map_of ?xs n = Some ?step" by (simp add: update_conv')
  then have "(n, ?step) \<in> set ?xs" by (rule map_of_SomeD)
  then have "length (filter (\<lambda>s. step_status s = COMPLETED) (map snd ?xs)) < length ?xs"
    by (rule count_less_length) simp
  moreover have "int (length ?xs) \<le> tot" by (rule keys_bound [OF dist keys assms(1)])
  ultimately have "completed_count (snd (start_step_local d n nm t1 t2)) \<noteq> tot"
    by (simp add: completed_count_def)
  with dist keys assms(3) show ?thesis by (simp add: agg_inv_def)
qed

lemma agg_inv_fail:
  assumes "0 < tot" and "map_of (steps d) n = Some s0" and "agg_inv tot d"
  shows "agg_inv tot (snd (fail_step_local d n s0 err t1 t2))"
proof -
  let ?step = "s0\<lparr>step_status := FAILED, error := Some err, completed_at := Some t1\<rparr>"
  let ?xs = "AList.update n ?step (steps d)"
  have n: "n \<in> fst ` set (steps d)" using assms(2) by (force dest: map_of_SomeD)
  have dist: "distinct (map fst ?xs)" using assms(3) by (simp add: agg_inv_def distinct_update)
  have keys: "\<forall>k\<in>set (map fst ?xs). 1 \<le> k \<and> k \<le> tot"
    using n assms(3) by (auto simp: agg_inv_def update_keys)
  have "map_of ?xs n = Some ?step" by (simp add: update_conv')
  then have "(n, ?step) \<in> set ?xs" by (rule map_of_SomeD)
  then have "length (filter (\<lambda>s. step_status s = COMPLETED) (map snd ?xs)) < length ?xs"
    by (rule count_less_length) simp
  moreover have "int (length ?xs) \<le> tot" by (rule keys_bound [OF dist keys assms(1)])
  ultimately have "completed_count (snd (fail_step_local d n s0 err t1 t2)) \<noteq> tot"
    by (simp add: completed_count_def)
  with dist keys assms(3) show ?thesis by (simp add: agg_inv_def)
qed

lemma agg_inv_complete:
  assumes "0 < tot" and "map_of (steps d) n = Some s0" and "agg_inv tot d"
  shows "agg_inv tot (snd (complete_step_local d n s0 res t1 t2))"
proof -
  let ?step = "s0\<lparr>step_status := COMPLETED, completed_at := Some t1, result := res\<rparr>"
  let ?xs = "AList.update n ?step (steps d)"
  let ?d' = "snd (complete_step_local d n s0 res t1 t2)"
  have n: "n \<in> fst ` set (steps d)" using assms(2) by (force dest: map_of_SomeD)
  have dist: "distinct (map fst ?xs)" using assms(3) by (simp add: agg_inv_def distinct_update)
  have keys: "\<forall>k\<in>set (map fst ?xs). 1 \<le> k \<and> k \<le> tot"
    using n assms(3) by (auto simp: agg_inv_def update_keys)
  have cnt: "completed_count ?d' = int (length (filter (\<lambda>s. step_status s = COMPLETED) (map snd ?xs)))"
    by (simp add: completed_count_def)
  have "length (filter (\<lambda>s. step_status s = COMPLETED) (map snd ?xs)) \<le> length ?xs"
    by (rule count_le_length)
  with keys_bound [OF dist keys assms(1)] have up: "completed_count ?d' \<le> tot"
    unfolding cnt by linarith
  have "length (filter (\<lambda>s. step_status s = COMPLETED) (map snd (steps d)))
          \<le> length (filter (\<lambda>s. step_status s = COMPLETED) (map snd ?xs))"
    by (rule count_update_mono) simp
  then have mono: "completed_count d \<le> completed_count ?d'"
    by (simp add: completed_count_def)
  have tot: "total_steps d = tot" using assms(3) by (simp add: agg_inv_def)
  have "status ?d' = DEPLOY_COMPLETED \<longleftrightarrow> completed_count ?d' = tot"
  proof (cases "completed_count ?d' \<ge> tot")
    case True
    with up show ?thesis by (simp add: complete_local_status tot)
  next
    case False
    with mono have "completed_count d \<noteq> tot" by simp
    with assms(3) have "status d \<noteq> DEPLOY_COMPLETED" by (simp add: agg_inv_def)
    with False show ?thesis by (simp add: complete_local_status tot)
  qed
  with dist keys tot show ?thesis by (simp add: agg_inv_def)
qed

lemma exec_keeps_deployment:
  assumes "get_deployment st sid = Some d0" and "\<not> is_create_of sid x"
  shows "\<exists>d. get_deployment (exec tot x st) sid = Some d \<and> total_steps d = total_steps d0"
proof (cases x)
  case (Create now s oid snm)
  with assms show ?thesis
    by (auto simp: get_create dest: get_deployment_client)
next
  case (Start s k nm t1 t2)
  with assms show ?thesis by (auto simp: get_start)
next
  case (Complete s k res t1 t2)
  with assms show ?thesis by (cases "map_of (steps d0) k") (auto simp: get_complete)
next
  case (Fail s k err t1 t2)
  with assms show ?thesis by (cases "map_of (steps d0) k") (auto simp: get_fail)
qed

lemma run_keeps_deployment:
  assumes "get_deployment st sid = Some d0" and "\<forall>x\<in>set ops. \<not> is_create_of sid x"
  shows "\<exists>d. get_deployment (run tot ops st) sid = Some d \<and> total_steps d = total_steps d0"
  using assms
proof (induction ops arbitrary: st d0)
  case Nil
  then show ?case by simp
next
  case (Cons x xs)
  from Cons.prems obtain d1 where
    d1: "get_deployment (exec tot x st) sid = Some d1" "total_steps d1 = total_steps d0"
    using exec_keeps_deployment [of st sid d0 x tot] by auto
  from Cons.IH [OF d1(1)] Cons.prems(2) d1(2) show ?case by simp
qed

lemma exec_keeps_step:
  assumes "get_step st sid n \<noteq> None" and "\<not> is_create_of sid x"
  shows "get_step (exec tot x st) sid n \<noteq> None"
proof (cases "touches sid n x")
  case False
  with assms show ?thesis by (simp add: get_step_untouched)
next
  case True
  from assms(1) obtain d s where d: "get_deployment st sid = Some d" and s: "get_step st sid n = Some s"
    by (auto simp: get_step_def split: option.splits)
  show ?thesis
  proof (cases x)
    case (Create now s' oid snm)
    with assms(2) True show ?thesis by (simp add: touches_def)
  next
    case (Start s' k nm t1 t2)
    with True d show ?thesis by (simp add: touches_def get_step_start)
  next
    case (Complete s' k res t1 t2)
    with True s show ?thesis by (simp add: touches_def get_step_complete)
  next
    case (Fail s' k err t1 t2)
    with True s show ?thesis by (simp add: touches_def get_step_fail)
  qed
qed

lemma run_keeps_step:
  assumes "get_deployment st sid = Some d0" and "\<forall>x\<in>set ops. \<not> is_create_of sid x"
    and "list_ex (is_start_of sid n) ops \<or> get_step st sid n \<noteq> None"
  shows "get_step (run tot ops st) sid n \<noteq> None"
  using assms
proof (induction ops arbitrary: st d0)
  case Nil
  then show ?case by simp
next
  case (Cons x xs)
  from Cons.prems obtain d1 where d1: "get_deployment (exec tot x st) sid = Some d1"
    using exec_keeps_deployment [of st sid d0 x tot] by auto
  have "list_ex (is_start_of sid n) xs \<or> get_step (exec tot x st) sid n \<noteq> None"
  proof (cases "get_step st sid n \<noteq> None")
    case True
    with Cons.prems(2) show ?thesis by (simp add: exec_keeps_step)
  next
    case False
    with Cons.prems(3) have "is_start_of sid n x \<or> list_ex (is_start_of sid n) xs" by simp
    then show ?thesis
    proof
      assume "is_start_of sid n x"
      then obtain nm t1 t2 where "x = Start sid n nm t1 t2" by (cases x) auto
      with Cons.prems(1) show ?thesis by (simp add: get_step_start)
    qed simp
  qed
  with Cons.IH [OF d1] Cons.prems(2) show ?case by simp
qed

lemma started_and_completed_snoc:
  "started_and_completed sid n (xs @ [x]) \<longleftrightarrow>
     (if touches sid n x
      then is_complete_of sid n x \<and> list_ex (is_start_of sid n) xs
      else started_and_completed sid n xs)"
proof (cases "touches sid n x")
  case True
  then have "filter (touches sid n) (xs @ [x]) = filter (touches sid n) xs @ [x]" by simp
  then have "(case filter (touches sid n) (xs @ [x]) of [] \<Rightarrow> False
              | y # ys \<Rightarrow> is_complete_of sid n (last (y # ys))) = is_complete_of sid n x"
    by (cases "filter (touches sid n) xs") simp_all
  moreover have "is_complete_of sid n x \<Longrightarrow> \<not> is_start_of sid n x" by (cases x) auto
  ultimately show ?thesis using True by (auto simp: started_and_completed_def)
next
  case False
  then have "\<not> is_start_of sid n x" by (simp add: touches_def)
  with False show ?thesis by (simp add: started_and_completed_def)
qed

lemma started_and_completed_done:
  assumes "get_deployment st sid = Some d0" and "\<forall>x\<in>set ops. \<not> is_create_of sid x"
    and "started_and_completed sid n ops"
  shows "is_step_completed (run tot ops st) sid n"
  using assms(2,3)
proof (induction ops rule: rev_induct)
  case Nil
  then show ?case by (simp add: started_and_completed_def)
next
  case (snoc x xs)
  show ?case
  proof (cases "touches sid n x")
    case True
    with snoc.prems(2) have c: "is_complete_of sid n x" and s: "list_ex (is_start_of sid n) xs"
      by (simp_all add: started_and_completed_snoc)
    from c obtain res t1 t2 where x: "x = Complete sid n res t1 t2" by (cases x) auto
    have "get_step (run tot xs st) sid n \<noteq> None"
      using assms(1) snoc.prems(1) s by (intro run_keeps_step) simp_all
    then show ?thesis
      by (auto simp: x is_step_completed_get_step get_step_complete)
  next
    case False
    with snoc.prems(2) have "started_and_completed sid n xs"
      by (simp add: started_and_completed_snoc)
    with snoc.IH snoc.prems(1) have "is_step_completed (run tot xs st) sid n" by simp
    with False show ?thesis
      by (simp add: is_step_completed_get_step get_step_untouched)
  qed
qed

lemma completed_count_ge:
  assumes "distinct ns"
    and "\<forall>n\<in>set ns. \<exists>s. map_of xs n = Some s \<and> step_status s = COMPLETED"
  shows "length ns \<le> length (filter (\<lambda>s. step_status s = COMPLETED) (map snd xs))"
proof -
  let ?A = "set (filter (\<lambda>p. step_status (snd p) = COMPLETED) xs)"
  have "set ns \<subseteq> fst ` ?A"
  proof
    fix n assume "n \<in> set ns"
    with assms(2) obtain s where "map_of xs n = Some s" "step_status s = COMPLETED" by blast
    then have "(n, s) \<in> ?A" by (auto dest: map_of_SomeD)
    then show "n \<in> fst ` ?A" by force
  qed
  then have "card (set ns) \<le> card (fst ` ?A)" by (intro card_mono) simp_all
  also have "\<dots> \<le> card ?A" by (rule card_image_le) simp
  also have "\<dots> \<le> length (filter (\<lambda>p. step_status (snd p) = COMPLETED) xs)"
    by (rule card_length)
  also have "\<dots> = length (filter (\<lambda>s. step_status s = COMPLETED) (map snd xs))"
    by (simp add: filter_map comp_def)
  finally show ?thesis using assms(1) by (simp add: distinct_card)
qed

lemma count_update_same:
  "map_of xs n = Some s0 \<Longrightarrow> P s0 \<Longrightarrow> P v \<Longrightarrow>
   length (filter P (map snd (AList.update n v xs))) = length (filter P (map snd xs))"
  by (induction xs) (auto split: if_splits)

lemma complete_again_status:
  assumes "get_deployment st sid = Some d" and "is_step_completed st sid n"
  shows "map_option status (get_deployment (snd (complete_step st sid n res t1 t2)) sid)
           = Some (if total_steps d \<le> completed_count d then DEPLOY_COMPLETED else status d)"
proof -
  from assms obtain s0 where s0: "map_of (steps d) n = Some s0" "step_status s0 = COMPLETED"
    by (auto simp: is_step_completed_def split: option.splits)
  let ?d' = "snd (complete_step_local d n s0 res t1 t2)"
  have "length (filter (\<lambda>s. step_status s = COMPLETED) (map snd (steps ?d')))
          = length (filter (\<lambda>s. step_status s = COMPLETED) (map snd (steps d)))"
    unfolding complete_local_fields
    by (rule count_update_same [OF s0(1)]) (simp_all add: s0(2))
  then have "completed_count ?d' = completed_count d" by (simp add: completed_count_def)
  then have "status ?d' = (if total_steps d \<le> completed_count d then DEPLOY_COMPLETED else status d)"
    by (simp add: complete_local_status)
  moreover have "get_deployment (snd (complete_step st sid n res t1 t2)) sid = Some ?d'"
    using assms(1) s0(1) by (simp add: get_complete)
  ultimately show ?thesis by simp
qed

lemma reachable_agg_inv:
  assumes "0 < tot" and "\<forall>x\<in>set ops. start_in_range tot x"
    and "get_deployment (run tot ops empty_store) sid = Some d"
  shows "agg_inv tot d"
proof -
  let ?P = "\<lambda>(sid::string) d. agg_inv tot d"
  show "?P sid d"
    using assms(2) _ _ _ _ _ assms(3)
  proof (rule run_invariant [where P = ?P and Q = "start_in_range tot"])
    fix sid' d assume "get_deployment empty_store sid' = Some d"
    then show "?P sid' d" by simp
  next
    fix now sid' oid snm
    show "?P sid' (new_DeploymentState tot now sid' oid snm DEPLOY_IN_PROGRESS)"
      using assms(1) by (rule agg_inv_new)
  next
    fix sid' d k nm t1 t2 assume "start_in_range tot (Start sid' k nm t1 t2)" "?P sid' d"
    then show "?P sid' (snd (start_step_local d k nm t1 t2))"
      using assms(1) by (simp add: agg_inv_start)
  next
    fix sid' d k s0 res t1 t2
    assume "?P sid' d" "map_of (steps d) k = Some s0"
    then show "?P sid' (snd (complete_step_local d k s0 res t1 t2))"
      using assms(1) by (simp add: agg_inv_complete)
  next
    fix sid' d k s0 err t1 t2 assume "?P sid' d" "map_of (steps d) k = Some s0"
    then show "?P sid' (snd (fail_step_local d k s0 err t1 t2))"
      using assms(1) by (simp add: agg_inv_fail)
  qed
qed

lemma agg_inv_count:
  assumes "0 < tot" and "agg_inv tot d" and "total_steps d \<le> completed_count d"
  shows "status d = DEPLOY_COMPLETED"
proof -
  have "int (length (steps d)) \<le> tot"
    using assms(1,2) by (intro keys_bound) (simp_all add: agg_inv_def)
  moreover have "length (filter (\<lambda>s. step_status s = COMPLETED) (map snd (steps d)))
                   \<le> length (steps d)"
    by (rule count_le_length)
  ultimately have "completed_count d \<le> tot" unfolding completed_count_def by linarith
  with assms(2,3) show ?thesis by (simp add: agg_inv_def)
qed

lemma complete_again_in_range:
  assumes "0 < tot" and "\<forall>x\<in>set ops. start_in_range tot x"
    and "is_step_completed (run tot ops empty_store) sid n"
  shows "map_option status
           (get_deployment (snd (complete_step (run tot ops empty_store) sid n res t1 t2)) sid)
         = map_option status (get_deployment (run tot ops empty_store) sid)"
proof -
  from assms(3) obtain d where d: "get_deployment (run tot ops empty_store) sid = Some d"
    by (auto simp: is_step_completed_def split: option.splits)
  have inv: "agg_inv tot d" by (rule reachable_agg_inv [OF assms(1,2) d])
  have "(if total_steps d \<le> completed_count d then DEPLOY_COMPLETED else status d) = status d"
    using agg_inv_count [OF assms(1) inv] by simp
  with complete_again_status [OF d assms(3), of res t1 t2] d show ?thesis by simp
qed

lemma all_completed_status:
  assumes "get_deployment st sid = Some d0"
    and "\<forall>x\<in>set ops. \<not> is_create_of sid x"
    and "distinct ns" and "int (length ns) = total_steps d0"
    and "\<forall>n\<in>set ns. started_and_completed sid n ops"
    and "ops \<noteq> []" and "\<exists>m\<in>set ns. is_complete_of sid m (last ops)"
  shows "map_option status (get_deployment (run tot ops st) sid) = Some DEPLOY_COMPLETED"
proof -
  from assms(6) obtain xs x where ops: "ops = xs @ [x]" by (cases ops rule: rev_cases) auto
  from assms(7) ops obtain m res t1 t2 where m: "m \<in> set ns" and x: "x = Complete sid m res t1 t2"
    by (cases x) auto
  have nc: "\<forall>y\<in>set xs. \<not> is_create_of sid y" using assms(2) ops by simp
  from run_keeps_deployment [OF assms(1) nc, of tot] obtain d1 where
    d1: "get_deployment (run tot xs st) sid = Some d1" "total_steps d1 = total_steps d0" by blast
  from assms(5) m ops have "list_ex (is_start_of sid m) xs"
    by (auto simp: x started_and_completed_snoc touches_def)
  then have "get_step (run tot xs st) sid m \<noteq> None"
    using assms(1) nc by (intro run_keeps_step) simp_all
  with d1 obtain s0 where s0: "map_of (steps d1) m = Some s0"
    by (auto simp: get_step_def)
  let ?d = "snd (complete_step_local d1 m s0 res t1 t2)"
  have d: "get_deployment (run tot ops st) sid = Some ?d"
    using d1 s0 by (simp add: ops x get_complete)
  have "\<forall>n\<in>set ns. \<exists>s. map_of (steps ?d) n = Some s \<and> step_status s = COMPLETED"
  proof
    fix n assume "n \<in> set ns"
    with assms(5) have "started_and_completed sid n ops" by blast
    from started_and_completed_done [OF assms(1,2) this, of tot] d
    show "\<exists>s. map_of (steps ?d) n = Some s \<and> step_status s = COMPLETED"
      by (simp add: is_step_completed_get_step get_step_def)
  qed
  from completed_count_ge [OF assms(3) this]
  have "total_steps d1 \<le> completed_count ?d"
    using assms(4) d1(2) by (simp add: completed_count_def)
  then have "status ?d = DEPLOY_COMPLETED" by (simp add: complete_local_status)
  with d show ?thesis by simp
qed

section \<open>The failure law\<close>

text \<open>
  Claim C1, as stated: after \<^verbatim>\<open>fail_step\<close>, for any step and any prior state, the persisted
  aggregate is \<^verbatim>\<open>FAILED\<close>. It fails where the step was never started: the guard
  \<^verbatim>\<open>step_num not in state.steps\<close> returns before anything is written, and the
  aggregate of a freshly created deployment stays \<^verbatim>\<open>IN_PROGRESS\<close>.
\<close>

theorem fail_step_unknown_step_counterexample:
  "map_option status
     (get_deployment
        (snd (fail_step (run 3 [Create ''t0'' ''S1'' ''O1'' ''Lab-1''] empty_store)
                ''S1'' 1 ''timeout'' ''t1'' ''t2''))
        ''S1'')
   = Some DEPLOY_IN_PROGRESS"
  by code_simp

text \<open>
  Claim C1, amended: when the store holds the aggregate of the site and the aggregate holds
  the step, \<^verbatim>\<open>fail_step\<close> leaves the persisted aggregate \<^verbatim>\<open>FAILED\<close>, whatever the
  status of the step and of the aggregate were before. When the deployment is absent or
  the step is unknown, \<^verbatim>\<open>fail_step\<close> writes nothing: the store is as it was.
\<close>

theorem fail_step_sets_failed:
  "(get_step st sid n \<noteq> None \<longrightarrow>
      map_option status (get_deployment (snd (fail_step st sid n err t1 t2)) sid)
        = Some DEPLOY_FAILED) \<and>
   (get_step st sid n = None \<longrightarrow> snd (fail_step st sid n err t1 t2) = st)"
proof (intro conjI impI)
  assume "get_step st sid n \<noteq> None"
  then obtain d s0 where "get_deployment st sid = Some d" "map_of (steps d) n = Some s0"
    by (auto simp: get_step_def split: option.splits)
  then show "map_option status (get_deployment (snd (fail_step st sid n err t1 t2)) sid)
               = Some DEPLOY_FAILED"
    by (simp add: get_fail)
next
  assume "get_step st sid n = None"
  then show "snd (fail_step st sid n err t1 t2) = st"
    by (auto simp: get_step_def fail_step_def split: option.splits)
qed

theorem fail_step_sets_failed_witness:
  "map_option status
     (get_deployment
        (snd (fail_step (run 3 [Create ''t0'' ''S1'' ''O1'' ''Lab-1'',
                                Start ''S1'' 1 ''claim'' ''t1'' ''t2'',
                                Complete ''S1'' 1 None ''t3'' ''t4''] empty_store)
                ''S1'' 1 ''timeout'' ''t5'' ''t6''))
        ''S1'')
   = Some DEPLOY_FAILED \<and>
   snd (fail_step (run 3 [Create ''t0'' ''S1'' ''O1'' ''Lab-1'',
                          Start ''S1'' 1 ''claim'' ''t1'' ''t2'',
                          Complete ''S1'' 1 None ''t3'' ''t4''] empty_store)
          ''S1'' 2 ''timeout'' ''t5'' ''t6'')
   = run 3 [Create ''t0'' ''S1'' ''O1'' ''Lab-1'',
            Start ''S1'' 1 ''claim'' ''t1'' ''t2'',
            Complete ''S1'' 1 None ''t3'' ''t4''] empty_store \<and>
   snd (fail_step empty_store ''S1'' 1 ''timeout'' ''t5'' ''t6'') = empty_store"
proof -
  let ?st = "run 3 [Create ''t0'' ''S1'' ''O1'' ''Lab-1'',
                    Start ''S1'' 1 ''claim'' ''t1'' ''t2'',
                    Complete ''S1'' 1 None ''t3'' ''t4''] empty_store"
  have h1: "get_step ?st ''S1'' 1 \<noteq> None" by code_simp
  have h2: "get_step ?st ''S1'' 2 = None" by code_simp
  have h3: "get_step empty_store ''S1'' 1 = None" by code_simp
  from h1 h2 h3
    fail_step_sets_failed [of ?st "''S1''" 1 "''timeout''" "''t5''" "''t6''"]
    fail_step_sets_failed [of ?st "''S1''" 2 "''timeout''" "''t5''" "''t6''"]
    fail_step_sets_failed [of empty_store "''S1''" 1 "''timeout''" "''t5''" "''t6''"]
  show ?thesis by blast
qed

section \<open>The step state machine\<close>

text \<open>
  Claim C2, as stated: a step that is \<^verbatim>\<open>COMPLETED\<close> or \<^verbatim>\<open>FAILED\<close> never changes status
  again. It fails: \<^verbatim>\<open>start_step\<close> stores a fresh \<^verbatim>\<open>IN_PROGRESS\<close> step under the number,
  whatever was there. Here step 1 is completed and then started again.
\<close>

theorem restart_completed_step_counterexample:
  "map_option step_status
     (get_step (run 3 [Create ''t0'' ''S1'' ''O1'' ''Lab-1'',
                       Start ''S1'' 1 ''claim'' ''t1'' ''t2'',
                       Complete ''S1'' 1 None ''t3'' ''t4''] empty_store) ''S1'' 1)
   = Some COMPLETED \<and>
   map_option step_status
     (get_step (run 3 [Create ''t0'' ''S1'' ''O1'' ''Lab-1'',
                       Start ''S1'' 1 ''claim'' ''t1'' ''t2'',
                       Complete ''S1'' 1 None ''t3'' ''t4'',
                       Start ''S1'' 1 ''claim'' ''t5'' ''t6''] empty_store) ''S1'' 1)
   = Some IN_PROGRESS"
  by code_simp

text \<open>
  Claim C2, amended: the status of a \<^verbatim>\<open>COMPLETED\<close> or \<^verbatim>\<open>FAILED\<close> step is the same
  after any sequence of operations each of which either is addressed elsewhere (another
  step number or another site, and not a \<^verbatim>\<open>create_deployment\<close> of the site) or repeats
  the outcome the step already has (\<^verbatim>\<open>complete_step\<close> on a \<^verbatim>\<open>COMPLETED\<close> step,
  \<^verbatim>\<open>fail_step\<close> on a \<^verbatim>\<open>FAILED\<close> one).
\<close>

theorem terminal_status_kept:
  assumes "get_step st sid n = Some s"
    and "step_status s = COMPLETED \<or> step_status s = FAILED"
    and "\<forall>x\<in>set ops. \<not> touches sid n x \<or> repeats (step_status s) sid n x"
  shows "map_option step_status (get_step (run tot ops st) sid n) = Some (step_status s)"
  using assms
proof (induction ops arbitrary: st s)
  case Nil
  then show ?case by simp
next
  case (Cons x xs)
  from Cons.prems obtain s' where
    s': "get_step (exec tot x st) sid n = Some s'" "step_status s' = step_status s"
    using exec_repeats [of st sid n s x tot] get_step_untouched [of sid n x tot st]
    by auto
  have "map_option step_status (get_step (run tot xs (exec tot x st)) sid n)
          = Some (step_status s')"
    by (rule Cons.IH) (use Cons.prems s' in simp_all)
  with s' show ?case by simp
qed

theorem terminal_status_kept_witness:
  "map_option step_status
     (get_step
        (run 3 [Start ''S1'' 2 ''assign'' ''t5'' ''t6'',
                Complete ''S1'' 1 (Some [(''id'', ''a'')]) ''t7'' ''t8'',
                Fail ''S1'' 2 ''timeout'' ''t9'' ''t10'']
           (run 3 [Create ''t0'' ''S1'' ''O1'' ''Lab-1'',
                   Start ''S1'' 1 ''claim'' ''t1'' ''t2'',
                   Complete ''S1'' 1 None ''t3'' ''t4''] empty_store))
        ''S1'' 1)
   = Some COMPLETED"
proof -
  let ?st = "run 3 [Create ''t0'' ''S1'' ''O1'' ''Lab-1'',
                    Start ''S1'' 1 ''claim'' ''t1'' ''t2'',
                    Complete ''S1'' 1 None ''t3'' ''t4''] empty_store"
  let ?s = "\<lparr>step_num = 1, name = ''claim'', step_status = COMPLETED, started_at = Some ''t1'',
             completed_at = Some ''t3'', result = None, error = None\<rparr>"
  let ?ops = "[Start ''S1'' 2 ''assign'' ''t5'' ''t6'',
               Complete ''S1'' 1 (Some [(''id'', ''a'')]) ''t7'' ''t8'',
               Fail ''S1'' 2 ''timeout'' ''t9'' ''t10'']"
  have h1: "get_step ?st ''S1'' 1 = Some ?s" by code_simp
  have h2: "step_status ?s = COMPLETED \<or> step_status ?s = FAILED" by simp
  have h3: "\<forall>x\<in>set ?ops. \<not> touches ''S1'' 1 x \<or> repeats (step_status ?s) ''S1'' 1 x"
    by (simp add: touches_def repeats_def)
  from terminal_status_kept [OF h1 h2 h3, of 3] show ?thesis by simp
qed

section \<open>The idempotency guard\<close>

text \<open>
  Claim C5, as stated: for every site and step, \<^verbatim>\<open>is_step_completed\<close> is true immediately
  after \<^verbatim>\<open>complete_step\<close>. It fails where the step was never started: \<^verbatim>\<open>complete_step\<close>
  returns a synthetic step and writes nothing.
\<close>

theorem complete_unknown_step_counterexample:
  "is_step_completed
     (snd (complete_step (run 3 [Create ''t0'' ''S1'' ''O1'' ''Lab-1''] empty_store)
             ''S1'' 1 None ''t1'' ''t2''))
     ''S1'' 1
   = False"
  by code_simp

text \<open>
  Claim C5, amended: in a store reached from the empty store by operations none of which
  is \<^verbatim>\<open>complete_step(site, n, ...)\<close>, \<^verbatim>\<open>is_step_completed(site, n)\<close> is false; immediately
  after \<^verbatim>\<open>complete_step(site, n, ...)\<close> it is true exactly when the persisted aggregate of
  the site held step \<open>n\<close> (the step had been started), and false otherwise.
\<close>

theorem is_step_completed_round_trip:
  assumes "\<forall>x\<in>set ops. \<not> is_complete_of sid n x"
  shows "\<not> is_step_completed (run tot ops empty_store) sid n \<and>
         (is_step_completed (snd (complete_step (run tot ops empty_store) sid n res t1 t2)) sid n
            \<longleftrightarrow> get_step (run tot ops empty_store) sid n \<noteq> None)"
proof -
  let ?st = "run tot ops empty_store"
  have a: "\<not> is_step_completed ?st sid n"
    by (rule never_completed_before [OF assms])
  have b: "is_step_completed (snd (complete_step ?st sid n res t1 t2)) sid n"
    if "get_step ?st sid n \<noteq> None"
    using that by (auto simp: is_step_completed_get_step get_step_complete)
  have c: "\<not> is_step_completed (snd (complete_step ?st sid n res t1 t2)) sid n"
    if "get_step ?st sid n = None"
    using that
    by (auto simp: is_step_completed_def get_step_def get_complete split: option.splits)
  from a b c show ?thesis by blast
qed

theorem is_step_completed_round_trip_witness:
  "\<not> is_step_completed
       (run 3 [Create ''t0'' ''S1'' ''O1'' ''Lab-1'',
               Start ''S1'' 1 ''claim'' ''t1'' ''t2''] empty_store) ''S1'' 1 \<and>
   is_step_completed
     (snd (complete_step
             (run 3 [Create ''t0'' ''S1'' ''O1'' ''Lab-1'',
                     Start ''S1'' 1 ''claim'' ''t1'' ''t2''] empty_store)
             ''S1'' 1 None ''t3'' ''t4''))
     ''S1'' 1"
proof -
  let ?ops = "[Create ''t0'' ''S1'' ''O1'' ''Lab-1'', Start ''S1'' 1 ''claim'' ''t1'' ''t2'']"
  have h: "\<forall>x\<in>set ?ops. \<not> is_complete_of ''S1'' 1 x" by simp
  have k: "get_step (run 3 ?ops empty_store) ''S1'' 1 \<noteq> None" by code_simp
  from is_step_completed_round_trip [OF h, of 3 None "''t3''" "''t4''"] k
  show ?thesis by blast
qed

section \<open>Listing the deployments\<close>

text \<open>
  Claim C10: after \<^verbatim>\<open>create_deployment(site_id, ...)\<close>, \<^verbatim>\<open>list_deployments()\<close> contains
  \<^verbatim>\<open>site_id\<close>. The code removes every occurrence of \<^verbatim>\<open>deployment:\<close> from the key, not
  only the prefix it added: for the site \<^verbatim>\<open>deployment:x\<close> the list holds \<^verbatim>\<open>x\<close>, which
  is not the identifier of any deployment.
\<close>

theorem list_deployments_strips_inner_prefix:
  "list_deployments
     (snd (create_deployment 3 ''t0'' empty_store ''deployment:x'' ''O1'' ''Lab-1''))
   = [''x'']"
  by code_simp

section \<open>The subnets of two sites\<close>

text \<open>
  Claim C9: the subnets of all valid pairs of zone and site are pairwise disjoint. The
  offsets 100, 150, 200 and 220 are smaller than the range of the zone: the data subnet of
  zone 1, site 5 is the management subnet of zone 101, site 5.
\<close>

theorem calculate_site_subnets_collide:
  "map_sum id data_subnet (calculate_site_subnets 1 5) = Inr ''10.101.5.0/24'' \<and>
   map_sum id management_subnet (calculate_site_subnets 101 5) = Inr ''10.101.5.0/24''"
  by code_simp

section \<open>The step payloads\<close>

text \<open>
  Claim C6, as stated: a result is present only on a \<^verbatim>\<open>COMPLETED\<close> step and an error only
  on a \<^verbatim>\<open>FAILED\<close> one, also after \<^verbatim>\<open>fail_step\<close> on a step that completed with a result.
  It fails there: \<^verbatim>\<open>fail_step\<close> changes the status, the error and the timestamp and leaves
  the result in place.
\<close>

theorem fail_after_complete_keeps_result_counterexample:
  "map_option (\<lambda>s. (step_status s, result s))
     (get_step (run 3 [Create ''t0'' ''S1'' ''O1'' ''Lab-1'',
                       Start ''S1'' 1 ''claim'' ''t1'' ''t2'',
                       Complete ''S1'' 1 (Some [(''id'', ''a'')]) ''t3'' ''t4'',
                       Fail ''S1'' 1 ''timeout'' ''t5'' ''t6''] empty_store) ''S1'' 1)
   = Some (FAILED, Some [(''id'', ''a'')])"
  by code_simp

text \<open>
  Claim C6, amended: for every step entity of an aggregate reached from the empty store:
  \<^verbatim>\<open>completed_at\<close> is set only when the status is \<^verbatim>\<open>COMPLETED\<close> or \<^verbatim>\<open>FAILED\<close>; a
  result is present only when the status is \<^verbatim>\<open>COMPLETED\<close> or \<^verbatim>\<open>FAILED\<close>, and with no
  error present the status is \<^verbatim>\<open>COMPLETED\<close>; an error is present only when the status is
  \<^verbatim>\<open>COMPLETED\<close> or \<^verbatim>\<open>FAILED\<close>, and every \<^verbatim>\<open>FAILED\<close> step has one.
\<close>

theorem reachable_step_invariant:
  assumes "get_step (run tot ops empty_store) sid n = Some s"
  shows "(completed_at s \<noteq> None \<longrightarrow> step_status s = COMPLETED \<or> step_status s = FAILED) \<and>
         (result s \<noteq> None \<longrightarrow> step_status s = COMPLETED \<or> step_status s = FAILED) \<and>
         (error s \<noteq> None \<longrightarrow> step_status s = COMPLETED \<or> step_status s = FAILED) \<and>
         (step_status s = FAILED \<longrightarrow> error s \<noteq> None) \<and>
         (result s \<noteq> None \<and> error s = None \<longrightarrow> step_status s = COMPLETED)"
proof -
  from assms obtain d where "get_deployment (run tot ops empty_store) sid = Some d"
    "map_of (steps d) n = Some s"
    by (auto simp: get_step_def split: option.splits)
  then have "step_inv s" by (rule reachable_steps_inv)
  then show ?thesis by (auto simp: step_inv_def)
qed

theorem reachable_step_invariant_witness:
  "get_step (run 3 [Create ''t0'' ''S1'' ''O1'' ''Lab-1'',
                    Start ''S1'' 1 ''claim'' ''t1'' ''t2'',
                    Complete ''S1'' 1 (Some [(''id'', ''a'')]) ''t3'' ''t4'',
                    Fail ''S1'' 1 ''timeout'' ''t5'' ''t6''] empty_store) ''S1'' 1
     = Some \<lparr>step_num = 1, name = ''claim'', step_status = FAILED, started_at = Some ''t1'',
              completed_at = Some ''t5'', result = Some [(''id'', ''a'')],
              error = Some ''timeout''\<rparr> \<and>
   get_step (run 3 [Create ''t0'' ''S1'' ''O1'' ''Lab-1'',
                    Start ''S1'' 1 ''claim'' ''t1'' ''t2'',
                    Complete ''S1'' 1 (Some [(''id'', ''a'')]) ''t3'' ''t4''] empty_store) ''S1'' 1
     = Some \<lparr>step_num = 1, name = ''claim'', step_status = COMPLETED, started_at = Some ''t1'',
              completed_at = Some ''t3'', result = Some [(''id'', ''a'')], error = None\<rparr>"
proof -
  let ?f = "\<lparr>step_num = 1, name = ''claim'', step_status = FAILED, started_at = Some ''t1'',
             completed_at = Some ''t5'', result = Some [(''id'', ''a'')],
             error = Some ''timeout''\<rparr>"
  let ?c = "\<lparr>step_num = 1, name = ''claim'', step_status = COMPLETED, started_at = Some ''t1'',
             completed_at = Some ''t3'', result = Some [(''id'', ''a'')], error = None\<rparr>"
  have h1: "get_step (run 3 [Create ''t0'' ''S1'' ''O1'' ''Lab-1'',
                             Start ''S1'' 1 ''claim'' ''t1'' ''t2'',
                             Complete ''S1'' 1 (Some [(''id'', ''a'')]) ''t3'' ''t4'',
                             Fail ''S1'' 1 ''timeout'' ''t5'' ''t6''] empty_store) ''S1'' 1
              = Some ?f"
    by code_simp
  have h2: "get_step (run 3 [Create ''t0'' ''S1'' ''O1'' ''Lab-1'',
                             Start ''S1'' 1 ''claim'' ''t1'' ''t2'',
                             Complete ''S1'' 1 (Some [(''id'', ''a'')]) ''t3'' ''t4'']
                        empty_store) ''S1'' 1
              = Some ?c"
    by code_simp
  from reachable_step_invariant [OF h1] reachable_step_invariant [OF h2] h1 h2
  show ?thesis by blast
qed

section \<open>Two completions of different steps\<close>

text \<open>
  Claim C7, as stated: two concurrent \<^verbatim>\<open>complete_step\<close> calls for different steps, started
  from the same persisted aggregate, are both reflected in the final aggregate. The code
  reads and writes the whole aggregate with no lock and no version check: when both calls
  read before either writes, the second write replaces the first, and step 1 is still
  \<^verbatim>\<open>IN_PROGRESS\<close>.
\<close>

theorem race_loses_update_counterexample:
  "map_option step_status
     (get_step
        (complete_step_race
           (run 3 [Create ''t0'' ''S1'' ''O1'' ''Lab-1'',
                   Start ''S1'' 1 ''claim'' ''t1'' ''t2'',
                   Start ''S1'' 2 ''assign'' ''t3'' ''t4''] empty_store)
           ''S1'' 1 None ''t5'' ''t6'' 2 None ''t7'' ''t8'')
        ''S1'' 1)
   = Some IN_PROGRESS"
  by code_simp

text \<open>
  Claim C7, amended: two \<^verbatim>\<open>complete_step\<close> calls for different steps of an aggregate that
  holds both are both reflected in the final aggregate when the second call starts after
  the first has written. When both read before either writes, the final aggregate is the
  one of the later writer: its step is \<^verbatim>\<open>COMPLETED\<close> and the other step is as it was
  before both calls.
\<close>

theorem complete_steps_in_turn:
  assumes "get_step st sid nA \<noteq> None" and "get_step st sid nB \<noteq> None" and "nA \<noteq> nB"
  shows "is_step_completed
           (snd (complete_step (snd (complete_step st sid nA resA tA1 tA2)) sid nB resB tB1 tB2))
           sid nA \<and>
         is_step_completed
           (snd (complete_step (snd (complete_step st sid nA resA tA1 tA2)) sid nB resB tB1 tB2))
           sid nB \<and>
         get_step (complete_step_race st sid nA resA tA1 tA2 nB resB tB1 tB2) sid nA
           = get_step st sid nA \<and>
         is_step_completed (complete_step_race st sid nA resA tA1 tA2 nB resB tB1 tB2) sid nB"
proof -
  from assms obtain d sA sB where d: "get_deployment st sid = Some d"
    and sA: "map_of (steps d) nA = Some sA" and sB: "map_of (steps d) nB = Some sB"
    by (auto simp: get_step_def split: option.splits)
  let ?st1 = "snd (complete_step st sid nA resA tA1 tA2)"
  have a1: "get_step ?st1 sid nA
              = Some (sA\<lparr>step_status := COMPLETED, completed_at := Some tA1, result := resA\<rparr>)"
  proof (rule get_step_complete)
    show "get_step st sid nA = Some sA" using d sA by (simp add: get_step_def)
  qed
  have b1: "get_step ?st1 sid nB = Some sB"
    using get_step_untouched [of sid nB "Complete sid nA resA tA1 tA2" 0 st] d sB assms(3)
    by (simp add: touches_def get_step_def)
  have a2: "get_step (snd (complete_step ?st1 sid nB resB tB1 tB2)) sid nA = get_step ?st1 sid nA"
    using get_step_untouched [of sid nA "Complete sid nB resB tB1 tB2" 0 ?st1] assms(3)
    by (simp add: touches_def)
  have b2: "get_step (snd (complete_step ?st1 sid nB resB tB1 tB2)) sid nB
              = Some (sB\<lparr>step_status := COMPLETED, completed_at := Some tB1, result := resB\<rparr>)"
    using b1 by (rule get_step_complete)
  have c: "client st \<noteq> None" using d by (rule get_deployment_client)
  then have cA: "client (snd (complete_step_from (Some d) st sid nA resA tA1 tA2)) \<noteq> None"
    by (simp add: client_complete_from)
  have race: "get_deployment (complete_step_race st sid nA resA tA1 tA2 nB resB tB1 tB2) sid
                = Some (snd (complete_step_local d nB sB resB tB1 tB2))"
    using d get_complete_from [OF sB cA]
    by (simp add: complete_step_race_def Let_def)
  have r1: "get_step (complete_step_race st sid nA resA tA1 tA2 nB resB tB1 tB2) sid nA
              = get_step st sid nA"
    using race d sA assms(3) by (simp add: get_step_def update_conv')
  have r2: "is_step_completed (complete_step_race st sid nA resA tA1 tA2 nB resB tB1 tB2) sid nB"
    using race by (simp add: is_step_completed_def update_conv')
  from a1 a2 b2 r1 r2 show ?thesis
    by (simp add: is_step_completed_get_step)
qed

theorem complete_steps_in_turn_witness:
  "is_step_completed
     (snd (complete_step
             (snd (complete_step
                     (run 3 [Create ''t0'' ''S1'' ''O1'' ''Lab-1'',
                             Start ''S1'' 1 ''claim'' ''t1'' ''t2'',
                             Start ''S1'' 2 ''assign'' ''t3'' ''t4''] empty_store)
                     ''S1'' 1 None ''t5'' ''t6''))
             ''S1'' 2 None ''t7'' ''t8''))
     ''S1'' 1 \<and>
   is_step_completed
     (snd (complete_step
             (snd (complete_step
                     (run 3 [Create ''t0'' ''S1'' ''O1'' ''Lab-1'',
                             Start ''S1'' 1 ''claim'' ''t1'' ''t2'',
                             Start ''S1'' 2 ''assign'' ''t3'' ''t4''] empty_store)
                     ''S1'' 1 None ''t5'' ''t6''))
             ''S1'' 2 None ''t7'' ''t8''))
     ''S1'' 2"
proof -
  let ?st = "run 3 [Create ''t0'' ''S1'' ''O1'' ''Lab-1'',
                    Start ''S1'' 1 ''claim'' ''t1'' ''t2'',
                    Start ''S1'' 2 ''assign'' ''t3'' ''t4''] empty_store"
  have h1: "get_step ?st ''S1'' 1 \<noteq> None" by code_simp
  have h2: "get_step ?st ''S1'' 2 \<noteq> None" by code_simp
  have h3: "(1::int) \<noteq> 2" by simp
  from complete_steps_in_turn [OF h1 h2 h3, of None "''t5''" "''t6''" None "''t7''" "''t8''"]
  show ?thesis by blast
qed

section \<open>Starting a step twice\<close>

text \<open>
  Claim C8: for an existing deployment, two \<^verbatim>\<open>start_step\<close> calls in succession for the
  same step both return and persist an \<^verbatim>\<open>IN_PROGRESS\<close> step, and afterwards the steps
  mapping has exactly one entry under the number: the second call adds no key. The keys
  of the stored mapping are distinct, as those of a dict are.
\<close>

theorem start_step_twice:
  assumes "get_deployment st sid = Some d" and "distinct (map fst (steps d))"
  shows "\<exists>d1 d2.
           get_deployment (snd (start_step st sid n nm t1 t2)) sid = Some d1 \<and>
           get_deployment (snd (start_step (snd (start_step st sid n nm t1 t2)) sid n nm t3 t4)) sid
             = Some d2 \<and>
           step_status (fst (start_step st sid n nm t1 t2)) = IN_PROGRESS \<and>
           step_status (fst (start_step (snd (start_step st sid n nm t1 t2)) sid n nm t3 t4))
             = IN_PROGRESS \<and>
           map_option step_status (map_of (steps d1) n) = Some IN_PROGRESS \<and>
           map_option step_status (map_of (steps d2) n) = Some IN_PROGRESS \<and>
           length (filter (\<lambda>p. fst p = n) (steps d2)) = 1 \<and>
           map fst (steps d2) = map fst (steps d1)"
proof -
  let ?st1 = "snd (start_step st sid n nm t1 t2)"
  have g1: "get_deployment ?st1 sid = Some (snd (start_step_local d n nm t1 t2))"
    by (rule get_start_same [OF assms(1)])
  have r1: "step_status (fst (start_step st sid n nm t1 t2)) = IN_PROGRESS"
    using assms(1) by (simp add: start_step_def start_step_local_def Let_def)
  have r2: "step_status (fst (start_step ?st1 sid n nm t3 t4)) = IN_PROGRESS"
    using g1 by (simp add: start_step_def start_step_local_def Let_def)
  have g2: "get_deployment (snd (start_step ?st1 sid n nm t3 t4)) sid
              = Some (snd (start_step_local (snd (start_step_local d n nm t1 t2)) n nm t3 t4))"
    by (rule get_start_same [OF g1])
  have d1: "distinct (map fst (steps (snd (start_step_local d n nm t1 t2))))"
    using assms(2) by (simp add: distinct_update)
  show ?thesis
    using g1 g2 r1 r2 d1 assms(2)
    by (simp add: update_conv' filter_key_update update_keys)
qed

theorem start_step_twice_witness:
  "\<exists>d1 d2.
     get_deployment
       (snd (start_step (run 3 [Create ''t0'' ''S1'' ''O1'' ''Lab-1''] empty_store)
               ''S1'' 3 ''x'' ''t1'' ''t2'')) ''S1'' = Some d1 \<and>
     get_deployment
       (snd (start_step
               (snd (start_step (run 3 [Create ''t0'' ''S1'' ''O1'' ''Lab-1''] empty_store)
                       ''S1'' 3 ''x'' ''t1'' ''t2''))
               ''S1'' 3 ''x'' ''t3'' ''t4'')) ''S1'' = Some d2 \<and>
     map_option step_status (map_of (steps d1) 3) = Some IN_PROGRESS \<and>
     map_option step_status (map_of (steps d2) 3) = Some IN_PROGRESS \<and>
     length (filter (\<lambda>p. fst p = 3) (steps d2)) = 1"
proof -
  let ?st = "run 3 [Create ''t0'' ''S1'' ''O1'' ''Lab-1''] empty_store"
  let ?d = "new_DeploymentState 3 ''t0'' ''S1'' ''O1'' ''Lab-1'' DEPLOY_IN_PROGRESS"
  have h1: "get_deployment ?st ''S1'' = Some ?d" by code_simp
  have h2: "distinct (map fst (steps ?d))" by (simp add: new_DeploymentState_def)
  from start_step_twice [OF h1 h2, of 3 "''x''" "''t1''" "''t2''" "''t3''" "''t4''"]
  show ?thesis by blast
qed

section \<open>The aggregate status and the count of completed steps\<close>

text \<open>
  Claim C4, as stated: a reachable aggregate is \<^verbatim>\<open>COMPLETED\<close> if and only if the number
  of \<^verbatim>\<open>COMPLETED\<close> steps equals \<^verbatim>\<open>total_steps\<close>. It fails once a step beyond
  \<^verbatim>\<open>total_steps\<close> is started: with three steps of three completed, \<^verbatim>\<open>start_step\<close> of a
  fourth sets the aggregate back to \<^verbatim>\<open>IN_PROGRESS\<close> while the count is still three.
\<close>

theorem extra_step_counterexample:
  "map_option (\<lambda>d. (status d, completed_count d, total_steps d))
     (get_deployment
        (run 3 [Create ''t0'' ''S1'' ''O1'' ''Lab-1'',
                Start ''S1'' 1 ''a'' ''t1'' ''t1'', Complete ''S1'' 1 None ''t1'' ''t1'',
                Start ''S1'' 2 ''b'' ''t2'' ''t2'', Complete ''S1'' 2 None ''t2'' ''t2'',
                Start ''S1'' 3 ''c'' ''t3'' ''t3'', Complete ''S1'' 3 None ''t3'' ''t3'',
                Start ''S1'' 4 ''d'' ''t4'' ''t4''] empty_store)
        ''S1'')
   = Some (DEPLOY_IN_PROGRESS, 3, 3)"
  by code_simp

text \<open>
  Claim C4, amended: when \<^verbatim>\<open>total_steps\<close> is positive and every \<^verbatim>\<open>start_step\<close> uses a step
  number in \<open>1..total_steps\<close>, every aggregate reached from the empty store is
  \<^verbatim>\<open>COMPLETED\<close> if and only if the number of its \<^verbatim>\<open>COMPLETED\<close> steps equals
  \<^verbatim>\<open>total_steps\<close>.
\<close>

theorem completed_iff_all_steps_completed:
  assumes "0 < tot" and "\<forall>x\<in>set ops. start_in_range tot x"
    and "get_deployment (run tot ops empty_store) sid = Some d"
  shows "status d = DEPLOY_COMPLETED \<longleftrightarrow> completed_count d = total_steps d"
proof -
  let ?P = "\<lambda>(sid::string) d. agg_inv tot d"
  have "?P sid d"
    using assms(2) _ _ _ _ _ assms(3)
  proof (rule run_invariant [where P = ?P and Q = "start_in_range tot"])
    fix sid' d assume "get_deployment empty_store sid' = Some d"
    then show "?P sid' d" by simp
  next
    fix now sid' oid snm
    show "?P sid' (new_DeploymentState tot now sid' oid snm DEPLOY_IN_PROGRESS)"
      using assms(1) by (rule agg_inv_new)
  next
    fix sid' d k nm t1 t2 assume "start_in_range tot (Start sid' k nm t1 t2)" "?P sid' d"
    then show "?P sid' (snd (start_step_local d k nm t1 t2))"
      using assms(1) by (simp add: agg_inv_start)
  next
    fix sid' d k s0 res t1 t2
    assume "?P sid' d" "map_of (steps d) k = Some s0"
    then show "?P sid' (snd (complete_step_local d k s0 res t1 t2))"
      using assms(1) by (simp add: agg_inv_complete)
  next
    fix sid' d k s0 err t1 t2 assume "?P sid' d" "map_of (steps d) k = Some s0"
    then show "?P sid' (snd (fail_step_local d k s0 err t1 t2))"
      using assms(1) by (simp add: agg_inv_fail)
  qed
  then show ?thesis by (simp add: agg_inv_def)
qed

theorem completed_iff_all_steps_completed_witness:
  "status (the (get_deployment
             (run 3 [Create ''t0'' ''S1'' ''O1'' ''Lab-1'',
                     Start ''S1'' 1 ''a'' ''t1'' ''t1'', Complete ''S1'' 1 None ''t1'' ''t1'',
                     Start ''S1'' 2 ''b'' ''t2'' ''t2'', Complete ''S1'' 2 None ''t2'' ''t2'',
                     Start ''S1'' 3 ''c'' ''t3'' ''t3'', Complete ''S1'' 3 None ''t3'' ''t3'']
                empty_store) ''S1'')) = DEPLOY_COMPLETED \<and>
   completed_count (the (get_deployment
             (run 3 [Create ''t0'' ''S1'' ''O1'' ''Lab-1'',
                     Start ''S1'' 1 ''a'' ''t1'' ''t1'', Complete ''S1'' 1 None ''t1'' ''t1'',
                     Start ''S1'' 2 ''b'' ''t2'' ''t2'', Complete ''S1'' 2 None ''t2'' ''t2'',
                     Start ''S1'' 3 ''c'' ''t3'' ''t3'', Complete ''S1'' 3 None ''t3'' ''t3'']
                empty_store) ''S1'')) = 3"
proof -
  let ?ops = "[Create ''t0'' ''S1'' ''O1'' ''Lab-1'',
               Start ''S1'' 1 ''a'' ''t1'' ''t1'', Complete ''S1'' 1 None ''t1'' ''t1'',
               Start ''S1'' 2 ''b'' ''t2'' ''t2'', Complete ''S1'' 2 None ''t2'' ''t2'',
               Start ''S1'' 3 ''c'' ''t3'' ''t3'', Complete ''S1'' 3 None ''t3'' ''t3'']"
  let ?d = "the (get_deployment (run 3 ?ops empty_store) ''S1'')"
  have h1: "(0::int) < 3" by simp
  have h2: "\<forall>x\<in>set ?ops. start_in_range 3 x" by simp
  have h3: "get_deployment (run 3 ?ops empty_store) ''S1'' = Some ?d" by code_simp
  have h4: "completed_count ?d = 3" by code_simp
  have h5: "total_steps ?d = 3" by code_simp
  from completed_iff_all_steps_completed [OF h1 h2 h3] h4 h5 show ?thesis by simp
qed

section \<open>The completion law\<close>

text \<open>
  Claim C3, as stated: \<^verbatim>\<open>complete_step\<close> on a step that is already completed leaves the
  aggregate status unchanged. It fails when \<^verbatim>\<open>total_steps\<close> steps are completed and the
  aggregate is not \<^verbatim>\<open>COMPLETED\<close>: with steps 1 to 3 of three completed and a fourth step
  failed, the aggregate is \<^verbatim>\<open>FAILED\<close>, and \<^verbatim>\<open>complete_step\<close> on step 1 counts three
  completed steps again and sets it to \<^verbatim>\<open>COMPLETED\<close>.
\<close>

theorem complete_again_changes_status_counterexample:
  "is_step_completed
     (run 3 [Create ''t0'' ''S1'' ''O1'' ''Lab-1'',
             Start ''S1'' 1 ''a'' ''t1'' ''t1'', Complete ''S1'' 1 None ''t1'' ''t1'',
             Start ''S1'' 2 ''b'' ''t2'' ''t2'', Complete ''S1'' 2 None ''t2'' ''t2'',
             Start ''S1'' 3 ''c'' ''t3'' ''t3'', Complete ''S1'' 3 None ''t3'' ''t3'',
             Start ''S1'' 4 ''d'' ''t4'' ''t4'', Fail ''S1'' 4 ''timeout'' ''t5'' ''t5'']
        empty_store) ''S1'' 1 \<and>
   map_option status
     (get_deployment
        (run 3 [Create ''t0'' ''S1'' ''O1'' ''Lab-1'',
                Start ''S1'' 1 ''a'' ''t1'' ''t1'', Complete ''S1'' 1 None ''t1'' ''t1'',
                Start ''S1'' 2 ''b'' ''t2'' ''t2'', Complete ''S1'' 2 None ''t2'' ''t2'',
                Start ''S1'' 3 ''c'' ''t3'' ''t3'', Complete ''S1'' 3 None ''t3'' ''t3'',
                Start ''S1'' 4 ''d'' ''t4'' ''t4'', Fail ''S1'' 4 ''timeout'' ''t5'' ''t5'']
           empty_store) ''S1'')
   = Some DEPLOY_FAILED \<and>
   map_option status
     (get_deployment
        (snd (complete_step
                (run 3 [Create ''t0'' ''S1'' ''O1'' ''Lab-1'',
                        Start ''S1'' 1 ''a'' ''t1'' ''t1'', Complete ''S1'' 1 None ''t1'' ''t1'',
                        Start ''S1'' 2 ''b'' ''t2'' ''t2'', Complete ''S1'' 2 None ''t2'' ''t2'',
                        Start ''S1'' 3 ''c'' ''t3'' ''t3'', Complete ''S1'' 3 None ''t3'' ''t3'',
                        Start ''S1'' 4 ''d'' ''t4'' ''t4'', Fail ''S1'' 4 ''timeout'' ''t5'' ''t5'']
                   empty_store)
                ''S1'' 1 None ''t6'' ''t6''))
        ''S1'')
   = Some DEPLOY_COMPLETED"
  by code_simp

text \<open>
  Claim C3, amended. First, for a deployment held by the store: once \<^verbatim>\<open>complete_step\<close> has
  been called for \<^verbatim>\<open>total_steps\<close> different steps, each started before, the persisted
  aggregate is \<^verbatim>\<open>COMPLETED\<close> (the calls form a trace on the site that does not create the
  deployment anew; for each of the steps the last operation on it is its
  \<^verbatim>\<open>complete_step\<close>, and the trace ends with the \<^verbatim>\<open>complete_step\<close> of one of them).
  Second, \<^verbatim>\<open>complete_step\<close> on an already completed step of any persisted aggregate
  makes the status \<^verbatim>\<open>COMPLETED\<close> when \<^verbatim>\<open>total_steps\<close> or more steps are completed, and
  leaves it unchanged otherwise: the step is not counted twice. Third, the status is therefore
  unchanged in every aggregate reached from the empty store when \<^verbatim>\<open>total_steps\<close> is
  positive and every \<^verbatim>\<open>start_step\<close> uses a step number in \<open>1..total_steps\<close>.
\<close>

theorem completion_law:
  "(get_deployment st sid = Some d0 \<and>
    (\<forall>x\<in>set ops. \<not> is_create_of sid x) \<and>
    distinct ns \<and> int (length ns) = total_steps d0 \<and>
    (\<forall>n\<in>set ns. started_and_completed sid n ops) \<and>
    ops \<noteq> [] \<and> (\<exists>m\<in>set ns. is_complete_of sid m (last ops))
    \<longrightarrow> map_option status (get_deployment (run tot ops st) sid) = Some DEPLOY_COMPLETED) \<and>
   (get_deployment st' sid = Some d \<and> is_step_completed st' sid n
    \<longrightarrow> map_option status (get_deployment (snd (complete_step st' sid n res t1 t2)) sid)
          = Some (if total_steps d \<le> completed_count d then DEPLOY_COMPLETED else status d)) \<and>
   (0 < tot \<and> (\<forall>x\<in>set ops'. start_in_range tot x) \<and>
    is_step_completed (run tot ops' empty_store) sid n
    \<longrightarrow> map_option status
          (get_deployment (snd (complete_step (run tot ops' empty_store) sid n res t1 t2)) sid)
        = map_option status (get_deployment (run tot ops' empty_store) sid))"
  using all_completed_status [of st sid d0 ops ns tot]
    complete_again_status [of st' sid d n res t1 t2]
    complete_again_in_range [of tot ops' sid n res t1 t2]
  by blast

theorem completion_law_witness:
  "map_option status
     (get_deployment
        (run 3 [Start ''S1'' 1 ''a'' ''t1'' ''t1'', Complete ''S1'' 1 None ''t1'' ''t1'',
                Start ''S1'' 2 ''b'' ''t2'' ''t2'', Complete ''S1'' 2 None ''t2'' ''t2'',
                Start ''S1'' 3 ''c'' ''t3'' ''t3'', Complete ''S1'' 3 None ''t3'' ''t3'']
           (run 3 [Create ''t0'' ''S1'' ''O1'' ''Lab-1''] empty_store))
        ''S1'')
   = Some DEPLOY_COMPLETED \<and>
   map_option status
     (get_deployment
        (run 3 [Create ''t0'' ''S1'' ''O1'' ''Lab-1'',
                Start ''S1'' 1 ''a'' ''t1'' ''t1'', Complete ''S1'' 1 None ''t1'' ''t1'',
                Start ''S1'' 2 ''b'' ''t2'' ''t2''] empty_store)
        ''S1'')
   = Some DEPLOY_IN_PROGRESS \<and>
   map_option status
     (get_deployment
        (snd (complete_step
                (run 3 [Create ''t0'' ''S1'' ''O1'' ''Lab-1'',
                        Start ''S1'' 1 ''a'' ''t1'' ''t1'', Complete ''S1'' 1 None ''t1'' ''t1'',
                        Start ''S1'' 2 ''b'' ''t2'' ''t2''] empty_store)
                ''S1'' 1 None ''t3'' ''t3''))
        ''S1'')
   = Some DEPLOY_IN_PROGRESS"
proof -
  let ?st = "run 3 [Create ''t0'' ''S1'' ''O1'' ''Lab-1''] empty_store"
  let ?fresh = "new_DeploymentState 3 ''t0'' ''S1'' ''O1'' ''Lab-1'' DEPLOY_IN_PROGRESS"
  let ?ops = "[Start ''S1'' 1 ''a'' ''t1'' ''t1'', Complete ''S1'' 1 None ''t1'' ''t1'',
               Start ''S1'' 2 ''b'' ''t2'' ''t2'', Complete ''S1'' 2 None ''t2'' ''t2'',
               Start ''S1'' 3 ''c'' ''t3'' ''t3'', Complete ''S1'' 3 None ''t3'' ''t3'']"
  let ?part = "[Create ''t0'' ''S1'' ''O1'' ''Lab-1'',
                Start ''S1'' 1 ''a'' ''t1'' ''t1'', Complete ''S1'' 1 None ''t1'' ''t1'',
                Start ''S1'' 2 ''b'' ''t2'' ''t2'']"
  let ?cur = "the (get_deployment (run 3 ?part empty_store) ''S1'')"
  have h1: "get_deployment ?st ''S1'' = Some ?fresh" by code_simp
  have h2: "\<forall>x\<in>set ?ops. \<not> is_create_of ''S1'' x" by simp
  have h3: "distinct [1, 2, 3 :: int]" by simp
  have h4: "int (length [1, 2, 3 :: int]) = total_steps ?fresh"
    by (simp add: new_DeploymentState_def)
  have h5: "\<forall>n\<in>set [1, 2, 3 :: int]. started_and_completed ''S1'' n ?ops"
    by (simp add: started_and_completed_def touches_def)
  have h6: "?ops \<noteq> []" by simp
  have h7: "\<exists>m\<in>set [1, 2, 3 :: int]. is_complete_of ''S1'' m (last ?ops)" by simp
  have p1: "get_deployment (run 3 ?part empty_store) ''S1'' = Some ?cur" by code_simp
  have p2: "is_step_completed (run 3 ?part empty_store) ''S1'' 1" by code_simp
  have p3: "(if total_steps ?cur \<le> completed_count ?cur then DEPLOY_COMPLETED else status ?cur)
              = DEPLOY_IN_PROGRESS"
    by code_simp
  have p4: "map_option status (get_deployment (run 3 ?part empty_store) ''S1'')
              = Some DEPLOY_IN_PROGRESS"
    by code_simp
  have q1: "(0::int) < 3" by simp
  have q2: "\<forall>x\<in>set ?part. start_in_range 3 x" by simp
  from completion_law [where st = ?st and sid = "''S1''" and ?d0.0 = ?fresh and ops = ?ops
      and ns = "[1, 2, 3]" and tot = 3 and st' = "run 3 ?part empty_store" and d = ?cur
      and n = 1 and res = None and ?t1.0 = "''t3''" and ?t2.0 = "''t3''" and ops' = ?part]
    h1 h2 h3 h4 h5 h6 h7 p1 p2 p3 p4 q1 q2
  show ?thesis by (simp only: simp_thms)
qed

end
